theory Spec2Isabelle
  imports Complex_Main "HOL-Library.Multiset"
begin

section \<open>JavaScript numbers\<close>

text \<open>
  The coordinates and bounds of \<^verbatim>\<open>src/physics/Quadtree.js\<close> are JavaScript numbers:
  IEEE 754 binary64 values. A number is \<open>NaN\<close>, one of the two infinities, or a finite
  value, kept as the rational it denotes. The two zeros are identified: the quadtree only
  adds, subtracts, halves, takes absolute values and compares, and none of these tells
  \<open>-0\<close> from \<open>+0\<close>. Every arithmetic result is rounded to the nearest binary64 value,
  ties to even, by \<open>round64\<close>.
\<close>

datatype jsnum = NaN | PInf | NInf | Fin rat

text \<open>The number of binary digits of a positive integer.\<close>

function bits :: "int \<Rightarrow> nat" where
  "bits n = (if n \<le> 0 then 0 else Suc (bits (n div 2)))"
  by pat_completeness auto
termination
  by (relation "measure nat") auto

declare bits.simps [simp del]

text \<open>\<open>ilog2 a\<close> is the integer \<open>e\<close> with \<open>2^e \<le> a < 2^(e+1)\<close>, for \<open>a > 0\<close>.\<close>

definition ilog2 :: "rat \<Rightarrow> int" where
  "ilog2 a = (if 1 \<le> a then int (bits \<lfloor>a\<rfloor>) - 1
              else - int (bits (\<lceil>1 / a\<rceil> - 1)))"

definition pow2 :: "int \<Rightarrow> rat" where
  "pow2 e = (if 0 \<le> e then 2 ^ nat e else 1 / 2 ^ nat (- e))"

text \<open>The nearest integer, ties to the even one.\<close>

definition round_even :: "rat \<Rightarrow> int" where
  "round_even r =
     (let f = \<lfloor>r\<rfloor>; d = r - of_int f
      in if d < 1 / 2 then f
         else if 1 / 2 < d then f + 1
         else if even f then f else f + 1)"

text \<open>
  Rounding to binary64: 53 significant bits, the least exponent of a normal number is
  \<open>-1022\<close> (below it the spacing stays \<open>2^-1074\<close>), and a rounded magnitude of
  \<open>2^1024\<close> or more overflows to an infinity.
\<close>

definition round64 :: "rat \<Rightarrow> jsnum" where
  "round64 q =
     (if q = 0 then Fin 0
      else
        let a = \<bar>q\<bar>;
            e = max (ilog2 a) (- 1022) - 52;
            r = of_int (round_even (a / pow2 e)) * pow2 e
        in if 2 ^ 1024 \<le> r then (if 0 < q then PInf else NInf)
           else Fin (if 0 < q then r else - r))"

fun isNaN :: "jsnum \<Rightarrow> bool" where
  "isNaN NaN = True"
| "isNaN _ = False"

fun js_neg :: "jsnum \<Rightarrow> jsnum" where
  "js_neg NaN = NaN"
| "js_neg PInf = NInf"
| "js_neg NInf = PInf"
| "js_neg (Fin a) = Fin (- a)"

fun js_add :: "jsnum \<Rightarrow> jsnum \<Rightarrow> jsnum" where
  "js_add NaN _ = NaN"
| "js_add _ NaN = NaN"
| "js_add PInf NInf = NaN"
| "js_add NInf PInf = NaN"
| "js_add PInf _ = PInf"
| "js_add _ PInf = PInf"
| "js_add NInf _ = NInf"
| "js_add _ NInf = NInf"
| "js_add (Fin a) (Fin b) = round64 (a + b)"

definition js_sub :: "jsnum \<Rightarrow> jsnum \<Rightarrow> jsnum" where
  "js_sub a b = js_add a (js_neg b)"

text \<open>Division by the literal \<open>2\<close>.\<close>

fun js_half :: "jsnum \<Rightarrow> jsnum" where
  "js_half (Fin a) = round64 (a / 2)"
| "js_half v = v"

fun js_abs :: "jsnum \<Rightarrow> jsnum" where
  "js_abs NaN = NaN"
| "js_abs PInf = PInf"
| "js_abs NInf = PInf"
| "js_abs (Fin a) = Fin \<bar>a\<bar>"

text \<open>The comparisons \<^verbatim>\<open><\<close>, \<^verbatim>\<open>>\<close> and \<^verbatim>\<open>>=\<close>: false as soon as one side is \<open>NaN\<close>.\<close>

fun js_lt :: "jsnum \<Rightarrow> jsnum \<Rightarrow> bool" where
  "js_lt NaN _ = False"
| "js_lt _ NaN = False"
| "js_lt _ NInf = False"
| "js_lt PInf _ = False"
| "js_lt NInf _ = True"
| "js_lt _ PInf = True"
| "js_lt (Fin a) (Fin b) = (a < b)"

definition js_gt :: "jsnum \<Rightarrow> jsnum \<Rightarrow> bool" where
  "js_gt a b = js_lt b a"

definition js_ge :: "jsnum \<Rightarrow> jsnum \<Rightarrow> bool" where
  "js_ge a b = (\<not> isNaN a \<and> \<not> isNaN b \<and> \<not> js_lt a b)"

text \<open>The literal \<^verbatim>\<open>.01\<close> of line 56: the binary64 value nearest to \<open>1/100\<close>.\<close>

definition tolerance :: jsnum where
  "tolerance = Fin (5764607523034235 / 2 ^ 59)"

section \<open>Particles, nodes, the node cache\<close>

text \<open>
  A particle is an object with coordinates \<^verbatim>\<open>x\<close> and \<^verbatim>\<open>y\<close>; \<open>pid\<close> stands for the
  identity of the object, and the linked list through \<^verbatim>\<open>next\<close> is a list of particles.
\<close>

record particle =
  pid :: nat
  px :: jsnum
  py :: jsnum

text \<open>
  A node (\<^verbatim>\<open>pv.Quadtree.Node\<close>) has the fields \<^verbatim>\<open>leaf\<close>, \<^verbatim>\<open>p\<close>, \<^verbatim>\<open>c1\<close> to \<^verbatim>\<open>c4\<close>;
  \<open>nid\<close> stands for the identity of the node object. The constructor builds a tree whose
  nodes it alone refers to, so a node is a value that owns its children, and an
  assignment to a field of a node returns the node with that field replaced.
\<close>

datatype qnode =
  Node (nid: nat) (leaf: bool) (pnt: "particle option")
       (c1: "qnode option") (c2: "qnode option") (c3: "qnode option") (c4: "qnode option")

fun set_leaf :: "bool \<Rightarrow> qnode \<Rightarrow> qnode" where
  "set_leaf v (Node i l q a b c d) = Node i v q a b c d"

fun set_pnt :: "particle option \<Rightarrow> qnode \<Rightarrow> qnode" where
  "set_pnt v (Node i l q a b c d) = Node i l v a b c d"

text \<open>The child slot chosen by \<^verbatim>\<open>switch (c)\<close>: 0, 1, 2 select \<^verbatim>\<open>c1\<close>, \<^verbatim>\<open>c2\<close>, \<^verbatim>\<open>c3\<close>, the default is \<^verbatim>\<open>c4\<close>.\<close>

definition slot :: "nat \<Rightarrow> qnode \<Rightarrow> qnode option" where
  "slot c n = (if c = 0 then c1 n else if c = 1 then c2 n else if c = 2 then c3 n else c4 n)"

fun set_slot :: "nat \<Rightarrow> qnode \<Rightarrow> qnode \<Rightarrow> qnode" where
  "set_slot k m (Node i l q a b c d) =
     (if k = 0 then Node i l q (Some m) b c d
      else if k = 1 then Node i l q a (Some m) c d
      else if k = 2 then Node i l q a b (Some m) d
      else Node i l q a b c (Some m))"

text \<open>
  The shared state: \<open>cache\<close> is the free list \<^verbatim>\<open>pv.Quadtree.$cache\<close>, linked through
  \<^verbatim>\<open>next\<close>, head first; \<open>fresh\<close> counts the nodes made by \<^verbatim>\<open>new pv.Quadtree.Node()\<close>,
  and is the identity of the next one; \<open>fails\<close> counts the calls of \<^verbatim>\<open>fail()\<close>.
\<close>

record pool =
  cache :: "qnode list"
  fresh :: nat
  fails :: nat

text \<open>
  \<^verbatim>\<open>node()\<close>, lines 27-34: the head of the free list as it is, or a new node, which has
  \<^verbatim>\<open>leaf\<close> true from the prototype and every other field undefined.
\<close>

definition node :: "pool \<Rightarrow> qnode \<times> pool" where
  "node st =
     (case cache st of
        n # rest \<Rightarrow> (n, st\<lparr>cache := rest\<rparr>)
      | [] \<Rightarrow> (Node (fresh st) True None None None None None, st\<lparr>fresh := Suc (fresh st)\<rparr>))"

text \<open>
  Modelled from the spec: \<^verbatim>\<open>fail()\<close>, called at line 44, is defined in none of the source
  files. The specification says that a point with a not-a-number coordinate is dropped,
  that the remainder is inserted, and that the condition is signalled to the caller, for
  instance by a counter. The call takes no argument, so it is a counter.
\<close>

definition fail :: "pool \<Rightarrow> pool" where
  "fail st = st\<lparr>fails := Suc (fails st)\<rparr>"

section \<open>The constructor\<close>

text \<open>The bounds \<^verbatim>\<open>x1\<close>, \<^verbatim>\<open>y1\<close>, \<^verbatim>\<open>x2\<close>, \<^verbatim>\<open>y2\<close>, in this order.\<close>

type_synonym bounds = "jsnum \<times> jsnum \<times> jsnum \<times> jsnum"

text \<open>Lines 12-19: the scan for the bounds, from the infinities.\<close>

definition scan_step :: "particle \<Rightarrow> bounds \<Rightarrow> bounds" where
  "scan_step p b =
     (case b of (x1, y1, x2, y2) \<Rightarrow>
        (if js_lt (px p) x1 then px p else x1,
         if js_lt (py p) y1 then py p else y1,
         if js_gt (px p) x2 then px p else x2,
         if js_gt (py p) y2 then py p else y2))"

definition scan :: "particle list \<Rightarrow> bounds" where
  "scan ps = fold scan_step ps (PInf, PInf, NInf, NInf)"

text \<open>Lines 22-24.\<close>

definition squarify :: "bounds \<Rightarrow> bounds" where
  "squarify b =
     (case b of (x1, y1, x2, y2) \<Rightarrow>
        let dx = js_sub x2 x1; dy = js_sub y2 y1
        in if js_gt dx dy then (x1, y1, x2, js_add y1 dx)
           else (x1, y1, js_add x1 dy, y2))"

text \<open>The test of line 43.\<close>

definition rejected :: "particle \<Rightarrow> bool" where
  "rejected p = (isNaN (px p) \<or> isNaN (py p))"

text \<open>The test of line 56.\<close>

definition coincident :: "particle \<Rightarrow> particle \<Rightarrow> bool" where
  "coincident q p =
     js_lt (js_add (js_abs (js_sub (px q) (px p))) (js_abs (js_sub (py q) (py p)))) tolerance"

text \<open>Lines 79-81: the split point, and the quadrant; each comparison counts as 0 or 1.\<close>

definition split :: "bounds \<Rightarrow> jsnum \<times> jsnum" where
  "split b = (case b of (x1, y1, x2, y2) \<Rightarrow> (js_half (js_add x1 x2), js_half (js_add y1 y2)))"

definition quadrant :: "particle \<Rightarrow> bounds \<Rightarrow> nat" where
  "quadrant p b =
     (case split b of (sx, sy) \<Rightarrow>
        (if js_ge (px p) sx then 1 else 0) + (if js_ge (py p) sy then 1 else 0) * 2)"

text \<open>Lines 84-85: the bounds of the recursive call.\<close>

definition narrow :: "nat \<Rightarrow> bounds \<Rightarrow> bounds" where
  "narrow c b =
     (case b of (x1, y1, x2, y2) \<Rightarrow>
        (case split b of (sx, sy) \<Rightarrow>
           (if c = 1 \<or> c = 3 then sx else x1,
            if 1 < c then sy else y1,
            if c = 1 \<or> c = 3 then x2 else sx,
            if 1 < c then y2 else sy)))"

text \<open>
  \<^verbatim>\<open>insert\<close> (lines 41-70) and \<^verbatim>\<open>insertChild\<close> (lines 77-96) call each other, and nothing
  bounds the depth of the calls. The first argument is the number of nested calls that
  are still available; \<open>None\<close> is a run that needs more, which is how a run that never
  returns shows.
\<close>

fun insert_pt ::
  "nat \<Rightarrow> qnode \<Rightarrow> particle \<Rightarrow> bounds \<Rightarrow> pool \<Rightarrow> (qnode \<times> pool) option"
and insertChild ::
  "nat \<Rightarrow> qnode \<Rightarrow> particle \<Rightarrow> bounds \<Rightarrow> pool \<Rightarrow> (qnode \<times> pool) option"
where
  "insert_pt 0 n p b st = None"
| "insert_pt (Suc k) n p b st =
     (if rejected p then Some (n, fail st)
      else if leaf n then
        (case pnt n of
           Some v \<Rightarrow>
             if coincident v p then insertChild k n p b st
             else
               (case insertChild k (set_pnt None n) v b st of
                  None \<Rightarrow> None
                | Some (n', st') \<Rightarrow> insertChild k n' p b st')
         | None \<Rightarrow> Some (set_pnt (Some p) n, st))
      else insertChild k n p b st)"
| "insertChild 0 n p b st = None"
| "insertChild (Suc k) n p b st =
     (let c = quadrant p b;
          n' = set_leaf False n
      in case (case slot c n' of Some m \<Rightarrow> (m, st) | None \<Rightarrow> node st) of
           (m, st') \<Rightarrow>
             (case insert_pt k m p (narrow c b) st' of
                None \<Rightarrow> None
              | Some (m', st'') \<Rightarrow> Some (set_slot c m' n', st'')))"

text \<open>Line 100: the loop over the particles.\<close>

fun insert_all ::
  "nat \<Rightarrow> qnode \<Rightarrow> particle list \<Rightarrow> bounds \<Rightarrow> pool \<Rightarrow> (qnode \<times> pool) option"
where
  "insert_all k r [] b st = Some (r, st)"
| "insert_all k r (p # ps) b st =
     (case insert_pt k r p b st of
        None \<Rightarrow> None
      | Some (r', st') \<Rightarrow> insert_all k r' ps b st')"

record quadtree =
  root :: qnode
  xMin :: jsnum
  yMin :: jsnum
  xMax :: jsnum
  yMax :: jsnum

text \<open>\<^verbatim>\<open>pv.Quadtree\<close>, lines 8-106.\<close>

definition Quadtree :: "nat \<Rightarrow> particle list \<Rightarrow> pool \<Rightarrow> (quadtree \<times> pool) option" where
  "Quadtree k particles st =
     (case squarify (scan particles) of (x1, y1, x2, y2) \<Rightarrow>
        (case node st of (r, st1) \<Rightarrow>
           (case insert_all k r particles (x1, y1, x2, y2) st1 of
              None \<Rightarrow> None
            | Some (r', st2) \<Rightarrow>
                Some (\<lparr>root = r', xMin = x1, yMin = y1, xMax = x2, yMax = y2\<rparr>, st2))))"

definition region :: "quadtree \<Rightarrow> bounds" where
  "region t = (xMin t, yMin t, xMax t, yMax t)"

section \<open>Disposal\<close>

text \<open>
  The inner \<^verbatim>\<open>dispose\<close>, lines 110-119, on the free list: the children first, \<^verbatim>\<open>c1\<close> to
  \<^verbatim>\<open>c4\<close>, then the node itself, cleared, becomes the head.
\<close>

fun dispose :: "qnode \<Rightarrow> qnode list \<Rightarrow> qnode list" where
  "dispose (Node i l q a b c d) fl =
     (let fl1 = (case a of Some m \<Rightarrow> dispose m fl | None \<Rightarrow> fl);
          fl2 = (case b of Some m \<Rightarrow> dispose m fl1 | None \<Rightarrow> fl1);
          fl3 = (case c of Some m \<Rightarrow> dispose m fl2 | None \<Rightarrow> fl2);
          fl4 = (case d of Some m \<Rightarrow> dispose m fl3 | None \<Rightarrow> fl3)
      in Node i True None None None None None # fl4)"

text \<open>\<^verbatim>\<open>pv.Quadtree.prototype.dispose\<close>, lines 109-121.\<close>

definition dispose_tree :: "quadtree \<Rightarrow> pool \<Rightarrow> pool" where
  "dispose_tree t st = st\<lparr>cache := dispose (root t) (cache st)\<rparr>"

section \<open>The notions of the specification\<close>

text \<open>
  The walk of a consumer: from a node with its bounds, the quadrant of the point is
  computed again from its coordinates and the bounds, and the walk goes on in that child
  with the narrowed bounds. \<open>holds n q b\<close> says that a node on this walk has \<open>q\<close>
  attached.
\<close>

function holds :: "qnode \<Rightarrow> particle \<Rightarrow> bounds \<Rightarrow> bool" where
  "holds n q b =
     (pnt n = Some q \<or>
      (case slot (quadrant q b) n of
         None \<Rightarrow> False
       | Some m \<Rightarrow> holds m q (narrow (quadrant q b) b)))"
  by pat_completeness auto
termination
  apply (relation "measure (\<lambda>(n, q, b). size n)")
   apply simp
  subgoal for n q b m
    by (cases n) (auto simp: slot_def split: if_splits)
  done

declare holds.simps [simp del]

text \<open>
  The invariant of a node that is not a leaf: one of its four children is there; and so
  for every node below.
\<close>

fun nonleaf_inv :: "qnode \<Rightarrow> bool" where
  "nonleaf_inv (Node i l q a b c d) =
     ((l \<or> a \<noteq> None \<or> b \<noteq> None \<or> c \<noteq> None \<or> d \<noteq> None) \<and>
      (case a of None \<Rightarrow> True | Some m \<Rightarrow> nonleaf_inv m) \<and>
      (case b of None \<Rightarrow> True | Some m \<Rightarrow> nonleaf_inv m) \<and>
      (case c of None \<Rightarrow> True | Some m \<Rightarrow> nonleaf_inv m) \<and>
      (case d of None \<Rightarrow> True | Some m \<Rightarrow> nonleaf_inv m))"

text \<open>A node as \<^verbatim>\<open>dispose\<close> leaves it: a leaf with no particle and no child.\<close>

definition cleared :: "qnode \<Rightarrow> bool" where
  "cleared n =
     (leaf n \<and> pnt n = None \<and> c1 n = None \<and> c2 n = None \<and> c3 n = None \<and> c4 n = None)"

text \<open>The identities of the nodes of a tree, and their number.\<close>

fun idents :: "qnode \<Rightarrow> nat list" where
  "idents (Node i l q a b c d) =
     i # (case a of None \<Rightarrow> [] | Some m \<Rightarrow> idents m)
       @ (case b of None \<Rightarrow> [] | Some m \<Rightarrow> idents m)
       @ (case c of None \<Rightarrow> [] | Some m \<Rightarrow> idents m)
       @ (case d of None \<Rightarrow> [] | Some m \<Rightarrow> idents m)"

definition count_nodes :: "qnode \<Rightarrow> nat" where
  "count_nodes n = length (idents n)"

text \<open>\<open>acquire k\<close> calls \<^verbatim>\<open>node()\<close> \<open>k\<close> times in a row and lists the nodes it returns.\<close>

fun acquire :: "nat \<Rightarrow> pool \<Rightarrow> qnode list \<times> pool" where
  "acquire 0 st = ([], st)"
| "acquire (Suc k) st =
     (case node st of (n, st1) \<Rightarrow>
        (case acquire k st1 of (ns, st2) \<Rightarrow> (n # ns, st2)))"

text \<open>
  The quadrant of the specification: index \<open>(x \<ge> sx ? 1 : 0) + (y \<ge> sy ? 2 : 0)\<close>, and
  child slot \<open>index + 1\<close>; its numbering of the child slots, 1 for \<open>x < sx, y < sy\<close>, 2 for
  \<open>x \<ge> sx, y < sy\<close>, 3 for \<open>x < sx, y \<ge> sy\<close>, 4 for \<open>x \<ge> sx, y \<ge> sy\<close>; and the
  rectangle of each quadrant.
\<close>

definition spec_index :: "particle \<Rightarrow> jsnum \<Rightarrow> jsnum \<Rightarrow> nat" where
  "spec_index p sx sy = (if js_ge (px p) sx then 1 else 0) + (if js_ge (py p) sy then 2 else 0)"

definition spec_child :: "nat \<Rightarrow> qnode \<Rightarrow> qnode option" where
  "spec_child i n =
     (if i = 1 then c1 n else if i = 2 then c2 n else if i = 3 then c3 n
      else if i = 4 then c4 n else None)"

definition spec_region :: "nat \<Rightarrow> bounds \<Rightarrow> bounds" where
  "spec_region i b =
     (case b of (x1, y1, x2, y2) \<Rightarrow>
        let sx = js_half (js_add x1 x2); sy = js_half (js_add y1 y2)
        in if i = 1 then (x1, y1, sx, sy)
           else if i = 2 then (sx, y1, x2, sy)
           else if i = 3 then (x1, sy, sx, y2)
           else (sx, sy, x2, y2))"

text \<open>The rational that a finite number denotes.\<close>

fun fin_val :: "jsnum \<Rightarrow> rat" where
  "fin_val (Fin a) = a"
| "fin_val _ = 0"

fun is_fin :: "jsnum \<Rightarrow> bool" where
  "is_fin (Fin a) = True"
| "is_fin _ = False"

definition finite_pt :: "particle \<Rightarrow> bool" where
  "finite_pt p = (is_fin (px p) \<and> is_fin (py p))"

text \<open>A rational is exact when rounding leaves it as it is: it is a binary64 value.\<close>

definition exact64 :: "rat \<Rightarrow> bool" where
  "exact64 q = (round64 q = Fin q)"

text \<open>The state before any tree is built: no node in the free list, none made.\<close>

definition empty_pool :: pool where
  "empty_pool = \<lparr>cache = [], fresh = 0, fails = 0\<rparr>"

text \<open>The four children of a node satisfy the invariant.\<close>

definition kids_inv :: "qnode \<Rightarrow> bool" where
  "kids_inv n =
     ((case c1 n of None \<Rightarrow> True | Some m \<Rightarrow> nonleaf_inv m) \<and>
      (case c2 n of None \<Rightarrow> True | Some m \<Rightarrow> nonleaf_inv m) \<and>
      (case c3 n of None \<Rightarrow> True | Some m \<Rightarrow> nonleaf_inv m) \<and>
      (case c4 n of None \<Rightarrow> True | Some m \<Rightarrow> nonleaf_inv m))"

text \<open>Two particles for the examples, at \<open>(0, 0)\<close> and \<open>(1, 1)\<close>, and the tree they give.\<close>

definition ex_a :: particle where
  "ex_a = \<lparr>pid = 0, px = Fin 0, py = Fin 0\<rparr>"

definition ex_b :: particle where
  "ex_b = \<lparr>pid = 1, px = Fin 1, py = Fin 1\<rparr>"

definition ex_tree :: quadtree where
  "ex_tree =
     \<lparr>root = Node 0 False None
               (Some (Node 1 True (Some ex_a) None None None None)) None None
               (Some (Node 2 True (Some ex_b) None None None None)),
      xMin = Fin 0, yMin = Fin 0, xMax = Fin 1, yMax = Fin 1\<rparr>"

text \<open>
  The child slot of the specification, written: slot \<open>i\<close> of \<open>n\<close> becomes \<open>m\<close>.
\<close>

definition spec_set_child :: "nat \<Rightarrow> qnode \<Rightarrow> qnode \<Rightarrow> qnode" where
  "spec_set_child i m n =
     (if i = 1 then Node (nid n) (leaf n) (pnt n) (Some m) (c2 n) (c3 n) (c4 n)
      else if i = 2 then Node (nid n) (leaf n) (pnt n) (c1 n) (Some m) (c3 n) (c4 n)
      else if i = 3 then Node (nid n) (leaf n) (pnt n) (c1 n) (c2 n) (Some m) (c4 n)
      else Node (nid n) (leaf n) (pnt n) (c1 n) (c2 n) (c3 n) (Some m))"

text \<open>
  The literal \<^verbatim>\<open>5.005\<close> as a binary64 value, and the particles at \<open>(5, 5)\<close> and
  \<open>(5.005, 5.005)\<close>.
\<close>

definition d5005 :: jsnum where
  "d5005 = Fin (5635129033747333 / 2 ^ 50)"

definition p5 :: particle where
  "p5 = \<lparr>pid = 0, px = Fin 5, py = Fin 5\<rparr>"

definition p5005 :: particle where
  "p5005 = \<lparr>pid = 1, px = d5005, py = d5005\<rparr>"

text \<open>
  The minimal enclosing rectangle of particles with finite coordinates: least and
  greatest \<^verbatim>\<open>x\<close>, least and greatest \<^verbatim>\<open>y\<close>, as \<open>(X1, Y1, X2, Y2)\<close>.
\<close>

definition enclosing :: "particle list \<Rightarrow> rat \<times> rat \<times> rat \<times> rat" where
  "enclosing ps =
     (Min (set (map (fin_val \<circ> px) ps)), Min (set (map (fin_val \<circ> py) ps)),
      Max (set (map (fin_val \<circ> px) ps)), Max (set (map (fin_val \<circ> py) ps)))"

text \<open>
  A particle with \<^verbatim>\<open>x\<close> not a number and \<^verbatim>\<open>y = 3\<close>, outside the range of the other
  two; one with \<^verbatim>\<open>y\<close> inside it; and the tree from the first one, \<open>ex_a\<close> and \<open>ex_b\<close>.
\<close>

definition ex_nan :: particle where
  "ex_nan = \<lparr>pid = 2, px = NaN, py = Fin 3\<rparr>"

definition ex_mid :: particle where
  "ex_mid = \<lparr>pid = 3, px = NaN, py = Fin (1 / 2)\<rparr>"

definition ex_nan_tree :: quadtree where
  "ex_nan_tree =
     \<lparr>root = Node 0 False None
               (Some (Node 1 False None
                        (Some (Node 2 True (Some ex_a) None None None None)) None None
                        (Some (Node 3 True (Some ex_b) None None None None))))
               None None None,
      xMin = Fin 0, yMin = Fin 0, xMax = Fin 3, yMax = Fin 3\<rparr>"

text \<open>
  Two particles at \<open>(0, 2^53)\<close> and \<open>(3, 2^53 + 2)\<close>, where binary64 values are two apart,
  and the tree they give.
\<close>

definition big_a :: particle where
  "big_a = \<lparr>pid = 0, px = Fin 0, py = Fin (2 ^ 53)\<rparr>"

definition big_b :: particle where
  "big_b = \<lparr>pid = 1, px = Fin 3, py = Fin (2 ^ 53 + 2)\<rparr>"

definition big_tree :: quadtree where
  "big_tree =
     \<lparr>root = Node 0 False None
               (Some (Node 1 True (Some big_a) None None None None)) None None
               (Some (Node 2 True (Some big_b) None None None None)),
      xMin = Fin 0, yMin = Fin (2 ^ 53), xMax = Fin 3, yMax = Fin (2 ^ 53 + 4)\<rparr>"


text \<open>
  The identities of the nodes in the free list. A tree and a state are \<open>proper\<close> when no
  identity occurs twice in the tree and the free list together, and each is the identity
  of a node that was made. A free list is proper when its nodes are cleared, with
  different identities of nodes that were made.
\<close>

definition pool_ids :: "pool \<Rightarrow> nat list" where
  "pool_ids st = concat (map idents (cache st))"

definition proper :: "qnode \<Rightarrow> pool \<Rightarrow> bool" where
  "proper n st =
     (distinct (idents n @ pool_ids st) \<and> list_all (\<lambda>i. i < fresh st) (idents n @ pool_ids st))"

definition proper_pool :: "pool \<Rightarrow> bool" where
  "proper_pool st =
     (distinct (map nid (cache st)) \<and> list_all (\<lambda>n. cleared n \<and> nid n < fresh st) (cache st))"

text \<open>
  Two particles at \<open>(+\<infinity>, 0)\<close>, and the bounds that the constructor computes for them.
\<close>

definition inf_a :: particle where
  "inf_a = \<lparr>pid = 0, px = PInf, py = Fin 0\<rparr>"

definition inf_b :: particle where
  "inf_b = \<lparr>pid = 1, px = PInf, py = Fin 0\<rparr>"

definition inf_bounds :: bounds where
  "inf_bounds = (PInf, Fin 0, PInf, Fin 0)"

text \<open>
  The particles attached in a tree, the node itself first and then its four children
  in the order of the slots.
\<close>

fun particles :: "qnode \<Rightarrow> particle list" where
  "particles (Node i l q a b c d) =
     (case q of None \<Rightarrow> [] | Some v \<Rightarrow> [v])
       @ (case a of None \<Rightarrow> [] | Some m \<Rightarrow> particles m)
       @ (case b of None \<Rightarrow> [] | Some m \<Rightarrow> particles m)
       @ (case c of None \<Rightarrow> [] | Some m \<Rightarrow> particles m)
       @ (case d of None \<Rightarrow> [] | Some m \<Rightarrow> particles m)"

text \<open>
  A node has no child when its four slots are empty. In a tree built by \<^verbatim>\<open>insert\<close> a
  leaf has no child, at every level: \<^verbatim>\<open>insertChild\<close> clears the flag of line 78 before
  it fills a slot.
\<close>

definition no_kids :: "qnode \<Rightarrow> bool" where
  "no_kids n = (c1 n = None \<and> c2 n = None \<and> c3 n = None \<and> c4 n = None)"

fun leaf_inv :: "qnode \<Rightarrow> bool" where
  "leaf_inv (Node i l q a b c d) =
     ((if l then a = None \<and> b = None \<and> c = None \<and> d = None else True) \<and>
      (case a of None \<Rightarrow> True | Some m \<Rightarrow> leaf_inv m) \<and>
      (case b of None \<Rightarrow> True | Some m \<Rightarrow> leaf_inv m) \<and>
      (case c of None \<Rightarrow> True | Some m \<Rightarrow> leaf_inv m) \<and>
      (case d of None \<Rightarrow> True | Some m \<Rightarrow> leaf_inv m))"

text \<open>
  Every particle under a child is one that lines 79-85 send to the slot of that child
  from the bounds of its parent, at every level.
\<close>

fun routed :: "qnode \<Rightarrow> bounds \<Rightarrow> bool" where
  "routed (Node i l q a b c d) bd =
     ((case a of None \<Rightarrow> True
       | Some m \<Rightarrow> list_all (\<lambda>v. quadrant v bd = 0) (particles m) \<and> routed m (narrow 0 bd)) \<and>
      (case b of None \<Rightarrow> True
       | Some m \<Rightarrow> list_all (\<lambda>v. quadrant v bd = 1) (particles m) \<and> routed m (narrow 1 bd)) \<and>
      (case c of None \<Rightarrow> True
       | Some m \<Rightarrow> list_all (\<lambda>v. quadrant v bd = 2) (particles m) \<and> routed m (narrow 2 bd)) \<and>
      (case d of None \<Rightarrow> True
       | Some m \<Rightarrow> list_all (\<lambda>v. quadrant v bd = 3) (particles m) \<and> routed m (narrow 3 bd)))"

text \<open>
  Insertion needs a free list of cleared nodes, since line 80 takes the child of an
  empty slot from it and \<^verbatim>\<open>insert\<close> treats it as a fresh leaf.
\<close>

definition good :: "qnode \<Rightarrow> bounds \<Rightarrow> pool \<Rightarrow> bool" where
  "good n b st = (leaf_inv n \<and> routed n b \<and> list_all cleared (cache st))"

text \<open>
  Two particles diverge within \<open>d\<close> levels from the bounds \<open>b\<close> when lines 79-85 send
  them to different slots at one of the first \<open>d\<close> levels of the walk of the first one.
  Two particles are apart when \<^verbatim>\<open>insert\<close> never has to split them forever: one of them
  fails the test of line 43, or they pass the test of line 56, or they diverge. A list
  is separable within \<open>D\<close> levels when each two of its particles are apart.
\<close>

fun diverge :: "nat \<Rightarrow> particle \<Rightarrow> particle \<Rightarrow> bounds \<Rightarrow> bool" where
  "diverge 0 v p b = False"
| "diverge (Suc d) v p b =
     (quadrant v b \<noteq> quadrant p b \<or> diverge d v p (narrow (quadrant v b) b))"

definition apart :: "nat \<Rightarrow> bounds \<Rightarrow> particle \<Rightarrow> particle \<Rightarrow> bool" where
  "apart D b v p = (rejected v \<or> rejected p \<or> coincident v p \<or> diverge D v p b)"

definition separable :: "nat \<Rightarrow> particle list \<Rightarrow> bounds \<Rightarrow> bool" where
  "separable D ps b = list_all (\<lambda>v. list_all (apart D b v) ps) ps"

text \<open>
  Four particles at the corners of the square from \<open>(0, 0)\<close> to \<open>(10, 10)\<close>, and the tree
  they give: each corner in a child of the root of its own.
\<close>

definition four_a :: particle where
  "four_a = \<lparr>pid = 0, px = Fin 0, py = Fin 0\<rparr>"

definition four_b :: particle where
  "four_b = \<lparr>pid = 1, px = Fin 10, py = Fin 0\<rparr>"

definition four_c :: particle where
  "four_c = \<lparr>pid = 2, px = Fin 0, py = Fin 10\<rparr>"

definition four_d :: particle where
  "four_d = \<lparr>pid = 3, px = Fin 10, py = Fin 10\<rparr>"

definition four_tree :: quadtree where
  "four_tree =
     \<lparr>root = Node 0 False None
               (Some (Node 1 True (Some four_a) None None None None))
               (Some (Node 2 True (Some four_b) None None None None))
               (Some (Node 3 True (Some four_c) None None None None))
               (Some (Node 4 True (Some four_d) None None None None)),
      xMin = Fin 0, yMin = Fin 0, xMax = Fin 10, yMax = Fin 10\<rparr>"

section \<open>Evaluation on numerals\<close>

lemma bits_0 [simp]: "bits 0 = 0"
  by (simp add: bits.simps)

lemma bits_1 [simp]: "bits 1 = 1"
  by (subst bits.simps) simp

lemma bits_neg_numeral [simp]: "bits (- numeral v) = 0"
  by (simp add: bits.simps)

lemma bits_numeral [simp]: "bits (numeral v) = Suc (bits (numeral v div 2))"
  by (subst bits.simps) simp

lemma floor_rat_numeral_div [simp]:
  "\<lfloor>(numeral v :: rat) / numeral w\<rfloor> = numeral v div numeral w"
  by (metis floor_divide_of_int_eq of_int_numeral)

lemma floor_rat_one_div [simp]: "\<lfloor>(1 :: rat) / numeral w\<rfloor> = 1 div numeral w"
  by (metis floor_divide_of_int_eq of_int_numeral of_int_1)

lemma ceiling_rat_numeral_div [simp]:
  "\<lceil>(numeral v :: rat) / numeral w\<rceil> = - (- numeral v div numeral w)"
  by (metis ceiling_def floor_divide_of_int_eq minus_divide_left of_int_minus of_int_numeral)

lemma ceiling_rat_one_div [simp]: "\<lceil>(1 :: rat) / numeral w\<rceil> = - (- 1 div numeral w)"
  by (metis ceiling_def floor_divide_of_int_eq minus_divide_left of_int_minus of_int_numeral
      of_int_1)

lemmas round64_eval = round64_def ilog2_def pow2_def round_even_def Let_def

lemmas js_eval = js_sub_def js_gt_def js_ge_def tolerance_def round64_eval

lemmas tree_eval = Quadtree_def scan_def scan_step_def squarify_def node_def fail_def
  rejected_def coincident_def split_def quadrant_def narrow_def slot_def region_def js_eval

lemma tolerance_literal: "round64 (1 / 100) = tolerance"
  by (simp add: js_eval)

lemma Quadtree_ex:
  "Quadtree (Suc (Suc (Suc 0))) [ex_a, ex_b] empty_pool = Some (ex_tree, \<lparr>cache = [], fresh = 3, fails = 0\<rparr>)"
  by (simp add: ex_a_def ex_b_def ex_tree_def empty_pool_def tree_eval)

lemma literal_5005: "round64 (5005 / 1000) = d5005"
  by (simp add: d5005_def round64_eval)

lemma two_points:
  "Quadtree (Suc (Suc (Suc k))) [p5, p5005] empty_pool =
     Some (\<lparr>root = Node 0 False (Some p5) None None None
                     (Some (Node 1 True (Some p5005) None None None None)),
            xMin = Fin 5, yMin = Fin 5, xMax = d5005, yMax = d5005\<rparr>,
           \<lparr>cache = [], fresh = 2, fails = 0\<rparr>)"
  by (simp add: p5_def p5005_def d5005_def empty_pool_def tree_eval)

lemma Quadtree_ex_nan:
  "Quadtree (Suc (Suc (Suc (Suc (Suc 0))))) [ex_nan, ex_a, ex_b] empty_pool =
     Some (ex_nan_tree, \<lparr>cache = [], fresh = 4, fails = 1\<rparr>)"
  by (simp add: ex_nan_def ex_a_def ex_b_def ex_nan_tree_def empty_pool_def tree_eval)

lemma Quadtree_ex5:
  "Quadtree (Suc (Suc (Suc (Suc (Suc 0))))) [ex_a, ex_b] empty_pool =
     Some (ex_tree, \<lparr>cache = [], fresh = 3, fails = 0\<rparr>)"
  by (simp add: ex_a_def ex_b_def ex_tree_def empty_pool_def tree_eval)

lemma Quadtree_big:
  "Quadtree (Suc (Suc (Suc 0))) [big_a, big_b] empty_pool =
     Some (big_tree, \<lparr>cache = [], fresh = 3, fails = 0\<rparr>)"
  by (simp add: big_a_def big_b_def big_tree_def empty_pool_def tree_eval)

section \<open>Field updates\<close>

lemma set_leaf_sel [simp]:
  "nid (set_leaf v n) = nid n" "leaf (set_leaf v n) = v" "pnt (set_leaf v n) = pnt n"
  "c1 (set_leaf v n) = c1 n" "c2 (set_leaf v n) = c2 n" "c3 (set_leaf v n) = c3 n"
  "c4 (set_leaf v n) = c4 n"
  by (cases n; simp)+

lemma set_pnt_sel [simp]:
  "nid (set_pnt v n) = nid n" "leaf (set_pnt v n) = leaf n" "pnt (set_pnt v n) = v"
  "c1 (set_pnt v n) = c1 n" "c2 (set_pnt v n) = c2 n" "c3 (set_pnt v n) = c3 n"
  "c4 (set_pnt v n) = c4 n"
  by (cases n; simp)+

lemma set_slot_sel [simp]:
  "nid (set_slot c m n) = nid n" "leaf (set_slot c m n) = leaf n" "pnt (set_slot c m n) = pnt n"
  by (cases n; simp)+

lemma slot_set_leaf [simp]: "slot c (set_leaf v n) = slot c n"
  by (simp add: slot_def)

lemma slot_set_pnt [simp]: "slot c (set_pnt v n) = slot c n"
  by (simp add: slot_def)

lemma slot_set_slot_same [simp]: "slot c (set_slot c m n) = Some m"
  by (cases n) (simp add: slot_def)

lemma slot_set_slot_other:
  "c < 4 \<Longrightarrow> c' < 4 \<Longrightarrow> c \<noteq> c' \<Longrightarrow> slot c' (set_slot c m n) = slot c' n"
  by (cases n) (auto simp: slot_def)

lemma quadrant_lt4: "quadrant p b < 4"
  by (simp add: quadrant_def split: prod.splits)

section \<open>The invariant of nodes that are not leaves\<close>

lemma nonleaf_inv_iff:
  "nonleaf_inv n \<longleftrightarrow>
     (leaf n \<or> c1 n \<noteq> None \<or> c2 n \<noteq> None \<or> c3 n \<noteq> None \<or> c4 n \<noteq> None) \<and> kids_inv n"
  by (cases n) (simp add: kids_inv_def)

lemma kids_inv_slot: "kids_inv n \<Longrightarrow> slot c n = Some m \<Longrightarrow> nonleaf_inv m"
  by (simp add: kids_inv_def slot_def split: if_splits)

lemma kids_inv_set_leaf [simp]: "kids_inv (set_leaf v n) = kids_inv n"
  by (simp add: kids_inv_def)

lemma kids_inv_set_pnt [simp]: "kids_inv (set_pnt v n) = kids_inv n"
  by (simp add: kids_inv_def)

lemma nonleaf_inv_set_pnt [simp]: "nonleaf_inv (set_pnt v n) = nonleaf_inv n"
  by (simp add: nonleaf_inv_iff)

lemma nonleaf_inv_set_slot:
  "kids_inv n \<Longrightarrow> nonleaf_inv m \<Longrightarrow> nonleaf_inv (set_slot c m n)"
  by (cases n) (simp add: kids_inv_def)

lemma node_inv:
  "node st = (m, st1) \<Longrightarrow> list_all nonleaf_inv (cache st) \<Longrightarrow>
   nonleaf_inv m \<and> list_all nonleaf_inv (cache st1)"
  by (auto simp: node_def split: list.splits)

lemma insert_nonleaf_inv:
  "nonleaf_inv n \<Longrightarrow> list_all nonleaf_inv (cache st) \<Longrightarrow> insert_pt k n p b st = Some (n', st') \<Longrightarrow>
     nonleaf_inv n' \<and> list_all nonleaf_inv (cache st')"
  and insertChild_nonleaf_inv:
  "kids_inv n \<Longrightarrow> list_all nonleaf_inv (cache st) \<Longrightarrow> insertChild k n p b st = Some (n', st') \<Longrightarrow>
     nonleaf_inv n' \<and> list_all nonleaf_inv (cache st')"
proof (induction k n p b st and k n p b st arbitrary: n' st' and n' st' rule: insert_pt_insertChild.induct)
  case (1 n p b st)
  then show ?case by simp
next
  case (2 k n p b st)
  show ?case
  proof (cases "rejected p")
    case True
    with "2.prems" show ?thesis by (auto simp: fail_def)
  next
    case rej: False
    show ?thesis
    proof (cases "leaf n")
      case False
      with rej "2.prems" "2.IH"(4)[of n' st'] show ?thesis
        by (simp add: nonleaf_inv_iff)
    next
      case lf: True
      show ?thesis
      proof (cases "pnt n")
        case None
        with rej lf "2.prems" show ?thesis by auto
      next
        case (Some v)
        show ?thesis
        proof (cases "coincident v p")
          case True
          with rej lf Some "2.prems" "2.IH"(1)[of v n' st'] show ?thesis
            by (simp add: nonleaf_inv_iff)
        next
          case nc: False
          from rej lf Some nc "2.prems"(3) obtain n1 st1 where
            s1: "insertChild k (set_pnt None n) v b st = Some (n1, st1)" and
            s2: "insertChild k n1 p b st1 = Some (n', st')"
            by (auto split: option.splits)
          have k1: "kids_inv (set_pnt None n)"
            using "2.prems"(1) by (simp add: nonleaf_inv_iff)
          from "2.IH"(2)[OF rej lf Some nc k1 "2.prems"(2) s1]
          have i1: "nonleaf_inv n1" "list_all nonleaf_inv (cache st1)" by auto
          from i1(1) have "kids_inv n1" by (simp add: nonleaf_inv_iff)
          from "2.IH"(3)[OF rej lf Some nc s1 refl this i1(2) s2]
          show ?thesis .
        qed
      qed
    qed
  qed
next
  case (3 n p b st)
  then show ?case by simp
next
  case (4 k n p b st)
  define c where "c = quadrant p b"
  define n1 where "n1 = set_leaf False n"
  obtain m st1 where ms: "(case slot c n1 of Some m \<Rightarrow> (m, st) | None \<Rightarrow> node st) = (m, st1)"
    by (cases "case slot c n1 of Some m \<Rightarrow> (m, st) | None \<Rightarrow> node st") auto
  from "4.prems"(3) ms obtain m' where
    ins: "insert_pt k m p (narrow c b) st1 = Some (m', st')" and n': "n' = set_slot c m' n1"
    by (auto simp: c_def n1_def Let_def split: option.splits)
  have mi: "nonleaf_inv m \<and> list_all nonleaf_inv (cache st1)"
  proof (cases "slot c n1")
    case None
    with ms have "node st = (m, st1)" by simp
    from node_inv[OF this "4.prems"(2)] show ?thesis .
  next
    case (Some x)
    with ms have "x = m" "st1 = st" by auto
    with Some "4.prems"(1,2) kids_inv_slot[of n c m] show ?thesis by (simp add: n1_def)
  qed
  from "4.IH"[OF c_def n1_def ms[symmetric] _ _ ins] mi
  have "nonleaf_inv m'" "list_all nonleaf_inv (cache st')" by auto
  moreover have "kids_inv n1" using "4.prems"(1) by (simp add: n1_def)
  ultimately show ?case
    using nonleaf_inv_set_slot[of n1 m' c] by (simp add: n')
qed


lemma insert_all_nonleaf_inv:
  "nonleaf_inv r \<Longrightarrow> list_all nonleaf_inv (cache st) \<Longrightarrow>
   insert_all k r ps b st = Some (r', st') \<Longrightarrow>
   nonleaf_inv r' \<and> list_all nonleaf_inv (cache st')"
proof (induction ps arbitrary: r st)
  case Nil
  then show ?case by simp
next
  case (Cons p ps)
  from Cons.prems(3) obtain r1 st1 where
    s1: "insert_pt k r p b st = Some (r1, st1)" and s2: "insert_all k r1 ps b st1 = Some (r', st')"
    by (auto split: option.splits)
  from insert_nonleaf_inv[OF Cons.prems(1,2) s1]
  have "nonleaf_inv r1" "list_all nonleaf_inv (cache st1)" by auto
  from Cons.IH[OF this s2] show ?case .
qed

section \<open>The walk\<close>

lemma insert_pt_cases [consumes 1, case_names rej attach coinc split inner]:
  assumes "insert_pt k n p b st = Some (n', st')"
  obtains
    j where "k = Suc j" "rejected p" "n' = n" "st' = fail st"
  | j where "k = Suc j" "\<not> rejected p" "leaf n" "pnt n = None" "n' = set_pnt (Some p) n" "st' = st"
  | j v where "k = Suc j" "\<not> rejected p" "leaf n" "pnt n = Some v" "coincident v p"
      "insertChild j n p b st = Some (n', st')"
  | j v n1 st1 where "k = Suc j" "\<not> rejected p" "leaf n" "pnt n = Some v" "\<not> coincident v p"
      "insertChild j (set_pnt None n) v b st = Some (n1, st1)"
      "insertChild j n1 p b st1 = Some (n', st')"
  | j where "k = Suc j" "\<not> rejected p" "\<not> leaf n" "insertChild j n p b st = Some (n', st')"
proof (cases k)
  case 0
  with assms show ?thesis by simp
next
  case (Suc j)
  with assms that show ?thesis
    by (auto split: if_splits option.splits)
qed

lemma insertChild_cases [consumes 1, case_names descend]:
  assumes "insertChild k n p b st = Some (n', st')"
  obtains j m st1 m' where "k = Suc j"
    "(case slot (quadrant p b) n of Some m \<Rightarrow> (m, st) | None \<Rightarrow> node st) = (m, st1)"
    "insert_pt j m p (narrow (quadrant p b) b) st1 = Some (m', st')"
    "n' = set_slot (quadrant p b) m' (set_leaf False n)"
proof (cases k)
  case 0
  with assms show ?thesis by simp
next
  case (Suc j)
  with assms that show ?thesis
    by (auto simp: Let_def split: option.splits prod.splits)
qed

lemma holds_here: "pnt n = Some q \<Longrightarrow> holds n q b"
  by (subst holds.simps) simp

lemma holds_child:
  "slot (quadrant q b) n = Some m \<Longrightarrow> holds m q (narrow (quadrant q b) b) \<Longrightarrow> holds n q b"
  by (subst holds.simps) simp

lemma holds_cases [consumes 1, case_names here child]:
  assumes "holds n q b"
  obtains "pnt n = Some q"
  | m where "slot (quadrant q b) n = Some m" "holds m q (narrow (quadrant q b) b)"
  using assms by (subst (asm) holds.simps) (auto split: option.splits)

lemma holds_set_leaf [simp]: "holds (set_leaf v n) q b = holds n q b"
  by (subst holds.simps, subst (2) holds.simps) simp

lemma holds_set_pnt_child:
  assumes "holds n q b" "pnt n \<noteq> Some q"
  shows "holds (set_pnt v n) q b"
  using assms(1)
proof (cases rule: holds_cases)
  case here
  with assms(2) show ?thesis by simp
next
  case (child m)
  then show ?thesis by (auto intro: holds_child)
qed

lemma insert_holds_new_aux:
  "(\<forall>n p b st n' st'. \<not> rejected p \<longrightarrow> insert_pt k n p b st = Some (n', st') \<longrightarrow> holds n' p b) \<and>
   (\<forall>n p b st n' st'. \<not> rejected p \<longrightarrow> insertChild k n p b st = Some (n', st') \<longrightarrow> holds n' p b)"
proof (induction k)
  case 0
  show ?case by simp
next
  case (Suc k)
  have ch: "holds n' p b"
    if "\<not> rejected p" "insertChild (Suc k) n p b st = Some (n', st')" for n p b st n' st'
    using that(2)
  proof (cases rule: insertChild_cases)
    case (descend j m st1 m')
    with Suc that(1) have "holds m' p (narrow (quadrant p b) b)" by blast
    with descend(4) show ?thesis by (auto intro: holds_child)
  qed
  have ins: "holds n' p b"
    if "\<not> rejected p" "insert_pt (Suc k) n p b st = Some (n', st')" for n p b st n' st'
    using that(2)
  proof (cases rule: insert_pt_cases)
    case (rej j)
    with that(1) show ?thesis by simp
  next
    case (attach j)
    then show ?thesis by (simp add: holds_here)
  next
    case (coinc j v)
    with Suc that(1) show ?thesis by blast
  next
    case (split j v n1 st1)
    with Suc that(1) show ?thesis by blast
  next
    case (inner j)
    with Suc that(1) show ?thesis by blast
  qed
  from ch ins show ?case by blast
qed

lemma insert_holds_new:
  "\<not> rejected p \<Longrightarrow> insert_pt k n p b st = Some (n', st') \<Longrightarrow> holds n' p b"
  using insert_holds_new_aux by blast

lemma insertChild_holds_new:
  "\<not> rejected p \<Longrightarrow> insertChild k n p b st = Some (n', st') \<Longrightarrow> holds n' p b"
  using insert_holds_new_aux by blast

lemma insert_holds_old_aux:
  "(\<forall>n p b st n' st' q. \<not> rejected q \<longrightarrow> holds n q b \<longrightarrow>
      insert_pt k n p b st = Some (n', st') \<longrightarrow> holds n' q b) \<and>
   (\<forall>n p b st n' st' q. \<not> rejected q \<longrightarrow> holds n q b \<longrightarrow>
      insertChild k n p b st = Some (n', st') \<longrightarrow> holds n' q b)"
proof (induction k)
  case 0
  show ?case by simp
next
  case (Suc k)
  have ch: "holds n' q b"
    if "\<not> rejected q" "holds n q b" "insertChild (Suc k) n p b st = Some (n', st')"
    for n p b st n' st' q
    using that(3)
  proof (cases rule: insertChild_cases)
    case (descend j m st1 m')
    from that(2) show ?thesis
    proof (cases rule: holds_cases)
      case here
      with descend(4) show ?thesis by (simp add: holds_here)
    next
      case (child mq)
      show ?thesis
      proof (cases "quadrant q b = quadrant p b")
        case True
        with child descend(2) have "m = mq" "st1 = st" by auto
        with child(2) True descend(1,3) Suc that(1)
        have "holds m' q (narrow (quadrant q b) b)" by (metis old.nat.inject)
        with True descend(4) show ?thesis by (auto intro: holds_child)
      next
        case False
        then have "slot (quadrant q b) n' = slot (quadrant q b) n"
          using descend(4) quadrant_lt4[of p b] quadrant_lt4[of q b]
          by (simp add: slot_set_slot_other)
        with child show ?thesis by (auto intro: holds_child)
      qed
    qed
  qed
  have ins: "holds n' q b"
    if "\<not> rejected q" "holds n q b" "insert_pt (Suc k) n p b st = Some (n', st')"
    for n p b st n' st' q
    using that(3)
  proof (cases rule: insert_pt_cases)
    case (rej j)
    with that(2) show ?thesis by simp
  next
    case (attach j)
    from that(2) show ?thesis
    proof (cases rule: holds_cases)
      case here
      with attach show ?thesis by simp
    next
      case (child m)
      with attach(5) show ?thesis by (auto intro: holds_child)
    qed
  next
    case (coinc j v)
    with Suc that(1,2) show ?thesis by blast
  next
    case (split j v n1 st1)
    have "holds n1 q b"
    proof (cases "v = q")
      case True
      with split(6) that(1) show ?thesis by (auto intro: insertChild_holds_new)
    next
      case False
      with split(4) that(2) have "holds (set_pnt None n) q b"
        by (intro holds_set_pnt_child) auto
      with split(1,6) Suc that(1) show ?thesis by blast
    qed
    with split(1,7) Suc that(1) show ?thesis by blast
  next
    case (inner j)
    with Suc that(1,2) show ?thesis by blast
  qed
  from ch ins show ?case by blast
qed

lemma insert_holds_old:
  "\<not> rejected q \<Longrightarrow> holds n q b \<Longrightarrow> insert_pt k n p b st = Some (n', st') \<Longrightarrow> holds n' q b"
  using insert_holds_old_aux by blast

lemma insert_all_holds_old:
  "\<not> rejected q \<Longrightarrow> holds r q b \<Longrightarrow> insert_all k r ps b st = Some (r', st') \<Longrightarrow> holds r' q b"
proof (induction ps arbitrary: r st)
  case Nil
  then show ?case by simp
next
  case (Cons p ps)
  from Cons.prems(3) obtain r1 st1 where
    s1: "insert_pt k r p b st = Some (r1, st1)" and s2: "insert_all k r1 ps b st1 = Some (r', st')"
    by (auto split: option.splits)
  from insert_holds_old[OF Cons.prems(1,2) s1] have "holds r1 q b" .
  from Cons.IH[OF Cons.prems(1) this s2] show ?case .
qed

lemma insert_all_holds:
  "q \<in> set ps \<Longrightarrow> \<not> rejected q \<Longrightarrow> insert_all k r ps b st = Some (r', st') \<Longrightarrow> holds r' q b"
proof (induction ps arbitrary: r st)
  case Nil
  then show ?case by simp
next
  case (Cons p ps)
  from Cons.prems(3) obtain r1 st1 where
    s1: "insert_pt k r p b st = Some (r1, st1)" and s2: "insert_all k r1 ps b st1 = Some (r', st')"
    by (auto split: option.splits)
  show ?case
  proof (cases "q = p")
    case True
    with s1 Cons.prems(2) have "holds r1 q b" by (auto intro: insert_holds_new)
    from insert_all_holds_old[OF Cons.prems(2) this s2] show ?thesis .
  next
    case False
    with Cons.prems(1) have "q \<in> set ps" by simp
    from Cons.IH[OF this Cons.prems(2) s2] show ?thesis .
  qed
qed

lemma Quadtree_SomeD:
  assumes "Quadtree k ps st = Some (t, st')"
  shows "insert_all k (fst (node st)) ps (squarify (scan ps)) (snd (node st)) = Some (root t, st')"
    and "region t = squarify (scan ps)"
  using assms
  by (auto simp: Quadtree_def region_def split: prod.splits option.splits)

section \<open>The root, and the empty list\<close>

lemma insert_nid_aux:
  "(\<forall>n p b st n' st'. insert_pt k n p b st = Some (n', st') \<longrightarrow> nid n' = nid n) \<and>
   (\<forall>n p b st n' st'. insertChild k n p b st = Some (n', st') \<longrightarrow> nid n' = nid n)"
proof (induction k)
  case 0
  show ?case by simp
next
  case (Suc k)
  have ch: "nid n' = nid n" if "insertChild (Suc k) n p b st = Some (n', st')" for n p b st n' st'
    using that by (cases rule: insertChild_cases) simp
  have ins: "nid n' = nid n" if "insert_pt (Suc k) n p b st = Some (n', st')" for n p b st n' st'
    using that
  proof (cases rule: insert_pt_cases)
    case (split j v n1 st1)
    with Suc have "nid n1 = nid (set_pnt None n)" "nid n' = nid n1" by blast+
    then show ?thesis by simp
  next
    case (rej j)
    then show ?thesis by simp
  next
    case (attach j)
    then show ?thesis by simp
  next
    case (coinc j v)
    with Suc show ?thesis by blast
  next
    case (inner j)
    with Suc show ?thesis by blast
  qed
  from ch ins show ?case by blast
qed

lemma insert_all_nid: "insert_all k r ps b st = Some (r', st') \<Longrightarrow> nid r' = nid r"
proof (induction ps arbitrary: r st)
  case Nil
  then show ?case by simp
next
  case (Cons p ps)
  from Cons.prems obtain r1 st1 where
    s1: "insert_pt k r p b st = Some (r1, st1)" and s2: "insert_all k r1 ps b st1 = Some (r', st')"
    by (auto split: option.splits)
  from s1 have "nid r1 = nid r" using insert_nid_aux[of k] by blast
  with Cons.IH[OF s2] show ?case by simp
qed

lemma Quadtree_Nil:
  "Quadtree k [] st =
     Some (\<lparr>root = fst (node st), xMin = PInf, yMin = PInf, xMax = NaN, yMax = NInf\<rparr>, snd (node st))"
  by (simp add: Quadtree_def scan_def squarify_def js_sub_def js_gt_def split: prod.splits)

lemma node_cleared: "list_all cleared (cache st) \<Longrightarrow> cleared (fst (node st))"
  by (auto simp: node_def cleared_def split: list.splits)

section \<open>The quadrant of the specification\<close>

lemma spec_index_cases:
  "spec_index p sx sy = 0 \<or> spec_index p sx sy = 1 \<or> spec_index p sx sy = 2 \<or>
   spec_index p sx sy = 3"
  by (simp add: spec_index_def)

lemma quadrant_spec:
  "quadrant p (x1, y1, x2, y2) =
     spec_index p (js_half (js_add x1 x2)) (js_half (js_add y1 y2))"
  by (simp add: quadrant_def split_def spec_index_def)

lemma slot_spec: "i \<le> 3 \<Longrightarrow> slot i n = spec_child (i + 1) n"
  by (auto simp: slot_def spec_child_def)

lemma narrow_spec: "i \<le> 3 \<Longrightarrow> narrow i b = spec_region (i + 1) b"
  by (cases b) (auto simp: narrow_def split_def spec_region_def Let_def)

lemma set_slot_spec: "i \<le> 3 \<Longrightarrow> set_slot i m n = spec_set_child (i + 1) m n"
  by (cases n) (auto simp: spec_set_child_def)

section \<open>Disposal and the free list\<close>

lemma dispose_app: "dispose n (fl @ gl) = dispose n fl @ gl"
proof (induction n fl arbitrary: gl rule: dispose.induct)
  case (1 i l q a b c d fl)
  show ?case
    using "1.IH" by (cases a; cases b; cases c; cases d) (simp_all add: Let_def)
qed

lemma dispose_append: "dispose n fl = dispose n [] @ fl"
  using dispose_app[of n "[]" fl] by simp

lemma dispose_nest: "dispose n (dispose m fl) = dispose n [] @ dispose m fl"
  by (rule dispose_append)

lemma dispose_Node:
  "dispose (Node i l q a b c d) [] =
     Node i True None None None None None #
       (case d of None \<Rightarrow> [] | Some m \<Rightarrow> dispose m []) @
       (case c of None \<Rightarrow> [] | Some m \<Rightarrow> dispose m []) @
       (case b of None \<Rightarrow> [] | Some m \<Rightarrow> dispose m []) @
       (case a of None \<Rightarrow> [] | Some m \<Rightarrow> dispose m [])"
  by (cases a; cases b; cases c; cases d) (simp_all add: Let_def dispose_nest)

lemma dispose_idents: "mset (map nid (dispose n [])) = mset (idents n)"
proof (induction n)
  case (Node i l q a b c d)
  show ?case
    unfolding dispose_Node
    using Node by (cases a; cases b; cases c; cases d) simp_all
qed

lemma dispose_cleared: "list_all cleared (dispose n [])"
proof (induction n)
  case (Node i l q a b c d)
  show ?case
    unfolding dispose_Node
    using Node by (cases a; cases b; cases c; cases d) (simp_all add: cleared_def)
qed

lemma dispose_length: "length (dispose n []) = count_nodes n"
  using arg_cong[OF dispose_idents[of n], of size] by (simp add: count_nodes_def)

lemma acquire_take:
  "j \<le> length xs \<Longrightarrow>
   acquire j (st\<lparr>cache := xs @ fl\<rparr>) = (take j xs, st\<lparr>cache := drop j xs @ fl\<rparr>)"
proof (induction j arbitrary: xs)
  case 0
  then show ?case by simp
next
  case (Suc j)
  then obtain x xs' where xs: "xs = x # xs'" by (cases xs) auto
  with Suc.prems have "j \<le> length xs'" by simp
  from Suc.IH[OF this] show ?case by (simp add: xs node_def)
qed

section \<open>Rejected particles\<close>

lemma node_fail: "node (fail st) = (fst (node st), fail (snd (node st)))"
  by (simp add: node_def fail_def split: list.splits)

lemma insert_fail_aux:
  "(\<forall>n p b st. insert_pt k n p b (fail st) =
      map_option (\<lambda>(n', s). (n', fail s)) (insert_pt k n p b st)) \<and>
   (\<forall>n p b st. insertChild k n p b (fail st) =
      map_option (\<lambda>(n', s). (n', fail s)) (insertChild k n p b st))"
proof (induction k)
  case 0
  show ?case by simp
next
  case (Suc k)
  then have ih1: "insert_pt k n p b (fail st) =
      map_option (\<lambda>(n', s). (n', fail s)) (insert_pt k n p b st)"
    and ih2: "insertChild k n p b (fail st) =
      map_option (\<lambda>(n', s). (n', fail s)) (insertChild k n p b st)" for n p b st
    by blast+
  have ch: "insertChild (Suc k) n p b (fail st) =
      map_option (\<lambda>(n', s). (n', fail s)) (insertChild (Suc k) n p b st)" for n p b st
  proof (cases "slot (quadrant p b) n")
    case None
    then show ?thesis
      by (cases "node st") (simp add: Let_def node_fail ih1 split: option.splits)
  next
    case (Some m)
    then show ?thesis
      by (simp add: Let_def ih1 split: option.splits)
  qed
  have ins: "insert_pt (Suc k) n p b (fail st) =
      map_option (\<lambda>(n', s). (n', fail s)) (insert_pt (Suc k) n p b st)" for n p b st
    by (simp add: ih2 split: option.splits)
  from ch ins show ?case by blast
qed

lemma insert_all_fail:
  "insert_all k r ps b (fail st) = map_option (\<lambda>(r', s). (r', fail s)) (insert_all k r ps b st)"
proof (induction ps arbitrary: r st)
  case Nil
  show ?case by simp
next
  case (Cons p ps)
  have e: "insert_pt k r p b (fail st) =
      map_option (\<lambda>(n', s). (n', fail s)) (insert_pt k r p b st)"
    using insert_fail_aux[of k] by blast
  show ?case
    by (cases "insert_pt k r p b st") (auto simp: e Cons.IH)
qed

lemma insert_all_drop:
  assumes "rejected p"
  shows "insert_all (Suc k) r (xs @ p # ys) b st =
     map_option (\<lambda>(r', s). (r', fail s)) (insert_all (Suc k) r (xs @ ys) b st)"
proof (induction xs arbitrary: r st)
  case Nil
  show ?case using assms by (simp add: insert_all_fail)
next
  case (Cons x xs)
  show ?case
    by (cases "insert_pt (Suc k) r x b st") (auto simp: Cons.IH simp del: insert_pt.simps)
qed

lemma js_lt_NaN_right [simp]: "js_lt a NaN = False"
  by (cases a) simp_all

lemma scan_step_nan: "isNaN (px p) \<Longrightarrow> isNaN (py p) \<Longrightarrow> scan_step p b = b"
  by (cases b; cases "px p"; cases "py p") (simp_all add: scan_step_def js_gt_def)

lemma scan_drop_nan:
  "isNaN (px p) \<Longrightarrow> isNaN (py p) \<Longrightarrow> scan (xs @ p # ys) = scan (xs @ ys)"
  by (simp add: scan_def scan_step_nan)

section \<open>The scan of finite particles\<close>

lemma js_sub_Fin [simp]: "js_sub (Fin a) (Fin b) = round64 (a - b)"
  by (simp add: js_sub_def)

lemma is_finE: "is_fin v \<Longrightarrow> (\<And>a. v = Fin a \<Longrightarrow> thesis) \<Longrightarrow> thesis"
  by (cases v) simp_all

lemma scan_step_fin:
  "px p = Fin x \<Longrightarrow> py p = Fin y \<Longrightarrow>
   scan_step p (Fin a, Fin b, Fin c, Fin d) =
     (Fin (min x a), Fin (min y b), Fin (max x c), Fin (max y d))"
  by (auto simp: scan_step_def js_gt_def min_def max_def)

lemma fold_scan_fin:
  "list_all finite_pt ps \<Longrightarrow>
   fold scan_step ps (Fin a, Fin b, Fin c, Fin d) =
     (Fin (fold min (map (fin_val \<circ> px) ps) a), Fin (fold min (map (fin_val \<circ> py) ps) b),
      Fin (fold max (map (fin_val \<circ> px) ps) c), Fin (fold max (map (fin_val \<circ> py) ps) d))"
proof (induction ps arbitrary: a b c d)
  case Nil
  show ?case by simp
next
  case (Cons p ps)
  from Cons.prems obtain x y where xy: "px p = Fin x" "py p = Fin y"
    by (auto simp: finite_pt_def elim!: is_finE)
  from Cons.prems have "list_all finite_pt ps" by simp
  from Cons.IH[OF this] show ?case
    by (simp add: scan_step_fin[OF xy] xy)
qed

lemma scan_fin:
  assumes "ps \<noteq> []" "list_all finite_pt ps" "enclosing ps = (X1, Y1, X2, Y2)"
  shows "scan ps = (Fin X1, Fin Y1, Fin X2, Fin Y2)"
proof -
  from assms(1) obtain p qs where ps: "ps = p # qs" by (cases ps) auto
  with assms(2) obtain x y where xy: "px p = Fin x" "py p = Fin y"
    by (auto simp: finite_pt_def elim!: is_finE)
  have s: "scan_step p (PInf, PInf, NInf, NInf) = (Fin x, Fin y, Fin x, Fin y)"
    by (simp add: scan_step_def js_gt_def xy)
  from assms(2) ps have "list_all finite_pt qs" by simp
  from fold_scan_fin[OF this, of x y x y]
  have "scan ps = (Fin (Min (set (map (fin_val \<circ> px) ps))), Fin (Min (set (map (fin_val \<circ> py) ps))),
      Fin (Max (set (map (fin_val \<circ> px) ps))), Fin (Max (set (map (fin_val \<circ> py) ps))))"
    unfolding ps by (simp add: scan_def s Min.set_eq_fold Max.set_eq_fold xy del: set_simps list.set)
  with assms(3) show ?thesis by (simp add: enclosing_def)
qed

section \<open>The depth of the calls\<close>

text \<open>
  A run that returns within \<open>k\<close> nested calls returns the same with any greater bound:
  the bound decides only whether a result is reached, never which.
\<close>

lemma insert_fuel_aux:
  "(\<forall>n p b st r. insert_pt k n p b st = Some r \<longrightarrow> insert_pt (Suc k) n p b st = Some r) \<and>
   (\<forall>n p b st r. insertChild k n p b st = Some r \<longrightarrow> insertChild (Suc k) n p b st = Some r)"
proof (induction k)
  case 0
  show ?case by simp
next
  case (Suc k)
  then have ih1: "insert_pt k n p b st = Some r \<Longrightarrow> insert_pt (Suc k) n p b st = Some r"
    and ih2: "insertChild k n p b st = Some r \<Longrightarrow> insertChild (Suc k) n p b st = Some r"
    for n p b st r
    by blast+
  have ch: "insertChild (Suc (Suc k)) n p b st = Some r"
    if "insertChild (Suc k) n p b st = Some r" for n p b st r
  proof -
    obtain n' st' where r: "r = (n', st')" by (cases r)
    from that[unfolded r] show ?thesis
    proof (cases rule: insertChild_cases)
      case (descend j m st1 m')
      from descend(1) have "j = k" by simp
      with descend(3) have "insert_pt (Suc k) m p (narrow (quadrant p b) b) st1 = Some (m', st')"
        by (blast intro: ih1)
      with descend(2,4) show ?thesis
        by (subst insertChild.simps) (simp add: Let_def r del: insert_pt.simps)
    qed
  qed
  have ins: "insert_pt (Suc (Suc k)) n p b st = Some r"
    if "insert_pt (Suc k) n p b st = Some r" for n p b st r
  proof -
    obtain n' st' where r: "r = (n', st')" by (cases r)
    from that[unfolded r] show ?thesis
    proof (cases rule: insert_pt_cases)
      case (rej j)
      then show ?thesis by (simp add: r)
    next
      case (attach j)
      then show ?thesis by (simp add: r)
    next
      case (coinc j v)
      from coinc(1) have "j = k" by simp
      with coinc(6) have "insertChild (Suc k) n p b st = Some (n', st')" by (blast intro: ih2)
      with coinc show ?thesis
        by (subst insert_pt.simps) (simp add: r del: insertChild.simps)
    next
      case (split j v n1 st1)
      from split(1) have "j = k" by simp
      with split(6,7) have "insertChild (Suc k) (set_pnt None n) v b st = Some (n1, st1)"
        "insertChild (Suc k) n1 p b st1 = Some (n', st')" by (blast intro: ih2)+
      with split show ?thesis
        by (subst insert_pt.simps) (simp add: r del: insertChild.simps)
    next
      case (inner j)
      from inner(1) have "j = k" by simp
      with inner(4) have "insertChild (Suc k) n p b st = Some (n', st')" by (blast intro: ih2)
      with inner show ?thesis
        by (subst insert_pt.simps) (simp add: r del: insertChild.simps)
    qed
  qed
  from ch ins show ?case by blast
qed

lemma insert_fuel_mono:
  "insert_pt k n p b st = Some r \<Longrightarrow> k \<le> k' \<Longrightarrow> insert_pt k' n p b st = Some r"
proof (induction k' )
  case 0
  then show ?case by simp
next
  case (Suc k')
  show ?case
  proof (cases "k = Suc k'")
    case True
    with Suc.prems show ?thesis by simp
  next
    case False
    with Suc.prems have "k \<le> k'" by simp
    from Suc.IH[OF Suc.prems(1) this] show ?thesis using insert_fuel_aux[of k'] by blast
  qed
qed

lemma insert_all_fuel_mono:
  "insert_all k r ps b st = Some res \<Longrightarrow> k \<le> k' \<Longrightarrow> insert_all k' r ps b st = Some res"
proof (induction ps arbitrary: r st)
  case Nil
  then show ?case by simp
next
  case (Cons p ps)
  from Cons.prems(1) obtain r1 st1 where
    s1: "insert_pt k r p b st = Some (r1, st1)" and s2: "insert_all k r1 ps b st1 = Some res"
    by (auto split: option.splits)
  from insert_fuel_mono[OF s1 Cons.prems(2)] Cons.IH[OF s2 Cons.prems(2)]
  show ?case by simp
qed

lemma Quadtree_fuel_mono:
  "Quadtree k ps st = Some res \<Longrightarrow> k \<le> k' \<Longrightarrow> Quadtree k' ps st = Some res"
  unfolding Quadtree_def
  by (auto split: prod.splits option.splits dest: insert_all_fuel_mono)

text \<open>
  The bound is needed: for two particles at \<open>(+\<infinity>, 0)\<close> the difference of line 56 is not
  a number, the test fails, and each call of \<^verbatim>\<open>insert\<close> on the child that holds the first
  particle pushes both down again, with the same bounds. No depth of calls is enough.
\<close>

lemma inf_facts:
  "\<not> rejected inf_a" "\<not> rejected inf_b" "\<not> coincident inf_a inf_b"
  "quadrant inf_a inf_bounds = 3" "quadrant inf_b inf_bounds = 3"
  "narrow 3 inf_bounds = inf_bounds"
  "squarify (scan [inf_a, inf_b]) = inf_bounds"
  by (simp_all add: inf_a_def inf_b_def inf_bounds_def rejected_def coincident_def quadrant_def
      Spec2Isabelle.split_def narrow_def squarify_def scan_def scan_step_def js_sub_def js_gt_def
      js_ge_def round64_def)

lemma inf_stuck:
  "leaf n \<Longrightarrow> pnt n = Some inf_a \<Longrightarrow> c4 n = None \<Longrightarrow> cache st = [] \<Longrightarrow>
   insert_pt k n inf_b inf_bounds st = None"
proof (induction k arbitrary: n st rule: less_induct)
  case (less k)
  show ?case
  proof (cases k)
    case 0
    then show ?thesis by simp
  next
    case k: (Suc j)
    show ?thesis
    proof (cases j)
      case 0
      with k less.prems show ?thesis by (simp add: inf_facts)
    next
      case j: (Suc i)
      define m where "m = Node (fresh st) True None None None None None"
      define st1 where "st1 = st\<lparr>fresh := Suc (fresh st)\<rparr>"
      have nd: "node st = (m, st1)" using less.prems(4) by (simp add: node_def m_def st1_def)
      have s3: "slot 3 (set_leaf False (set_pnt None n)) = None"
        using less.prems(3) by (simp add: slot_def)
      show ?thesis
      proof (cases i)
        case 0
        with k j less.prems s3 nd show ?thesis by (simp add: inf_facts Let_def)
      next
        case i: (Suc h)
        define m' where "m' = set_pnt (Some inf_a) m"
        define n' where "n' = set_slot 3 m' (set_leaf False (set_pnt None n))"
        have a: "insertChild j (set_pnt None n) inf_a inf_bounds st = Some (n', st1)"
          using s3 nd by (simp add: j i inf_facts Let_def m_def m'_def n'_def)
        have "leaf m'" "pnt m' = Some inf_a" "c4 m' = None" "cache st1 = []"
          using less.prems(4) by (simp_all add: m'_def m_def st1_def)
        from less.IH[OF _ this, of i] k j have "insert_pt i m' inf_b inf_bounds st1 = None" by simp
        then have b: "insertChild j n' inf_b inf_bounds st1 = None"
          by (simp add: j inf_facts Let_def n'_def del: insert_pt.simps)
        from a b less.prems show ?thesis
          by (simp add: k inf_facts del: insertChild.simps)
      qed
    qed
  qed
qed

lemma never_returns: "Quadtree k [inf_a, inf_b] empty_pool = None"
proof (cases k)
  case 0
  then show ?thesis by (simp add: Quadtree_def split: prod.splits)
next
  case (Suc j)
  define st1 where "st1 = \<lparr>cache = [], fresh = Suc 0, fails = 0\<rparr>"
  have n0: "node empty_pool = (Node 0 True None None None None None, st1)"
    by (simp add: node_def empty_pool_def st1_def)
  have i1: "insert_pt (Suc j) (Node 0 True None None None None None) inf_a inf_bounds st1 =
      Some (Node 0 True (Some inf_a) None None None None, st1)"
    by (simp add: inf_facts)
  have i2: "insert_pt (Suc j) (Node 0 True (Some inf_a) None None None None) inf_b inf_bounds st1 =
      None"
    by (rule inf_stuck) (simp_all add: st1_def)
  have "insert_all (Suc j) (Node 0 True None None None None None) [inf_a, inf_b] inf_bounds st1 =
      None"
    by (simp only: insert_all.simps i1 i2 option.case prod.case)
  then show ?thesis
    unfolding Quadtree_def inf_facts(7) n0 Suc inf_bounds_def by simp
qed

section \<open>Identities of nodes\<close>

text \<open>
  The nodes of the tree, those of the free list and those made since are always the nodes
  there were before. So from a proper free list the constructor builds a tree of
  different nodes and leaves a proper free list, and so does disposing that tree; the free
  list of the start, empty, is proper.
\<close>

lemma node_ids:
  "node st = (m, st1) \<Longrightarrow>
   fresh st \<le> fresh st1 \<and>
   mset (idents m) + mset (pool_ids st1) = mset (pool_ids st) + mset [fresh st..<fresh st1]"
  by (auto simp: node_def pool_ids_def split: list.splits)

lemma idents_set_leaf [simp]: "idents (set_leaf v n) = idents n"
  by (cases n) simp

lemma idents_set_pnt [simp]: "idents (set_pnt v n) = idents n"
  by (cases n) simp

lemma idents_set_slot:
  "mset (idents (set_slot c m' n)) + (case slot c n of None \<Rightarrow> {#} | Some m \<Rightarrow> mset (idents m)) =
   mset (idents n) + mset (idents m')"
  by (cases n) (auto simp: slot_def split: option.splits)

lemma upt_join: "a \<le> b \<Longrightarrow> b \<le> c \<Longrightarrow> mset [a..<b] + mset [b..<c] = mset [a..<c]"
  by (metis le_Suc_ex mset_append upt_add_eq_append)

lemma insert_ids_aux:
  "(\<forall>n p b st n' st'. insert_pt k n p b st = Some (n', st') \<longrightarrow>
      fresh st \<le> fresh st' \<and>
      mset (idents n') + mset (pool_ids st') =
        mset (idents n) + mset (pool_ids st) + mset [fresh st..<fresh st']) \<and>
   (\<forall>n p b st n' st'. insertChild k n p b st = Some (n', st') \<longrightarrow>
      fresh st \<le> fresh st' \<and>
      mset (idents n') + mset (pool_ids st') =
        mset (idents n) + mset (pool_ids st) + mset [fresh st..<fresh st'])"
proof (induction k)
  case 0
  show ?case by simp
next
  case (Suc k)
  then have ih1: "insert_pt k n p b st = Some (n', st') \<Longrightarrow>
      fresh st \<le> fresh st' \<and>
      mset (idents n') + mset (pool_ids st') =
        mset (idents n) + mset (pool_ids st) + mset [fresh st..<fresh st']"
    and ih2: "insertChild k n p b st = Some (n', st') \<Longrightarrow>
      fresh st \<le> fresh st' \<and>
      mset (idents n') + mset (pool_ids st') =
        mset (idents n) + mset (pool_ids st) + mset [fresh st..<fresh st']"
    for n p b st n' st'
    by blast+
  have ch: "fresh st \<le> fresh st' \<and>
      mset (idents n') + mset (pool_ids st') =
        mset (idents n) + mset (pool_ids st) + mset [fresh st..<fresh st']"
    if "insertChild (Suc k) n p b st = Some (n', st')" for n p b st n' st'
    using that
  proof (cases rule: insertChild_cases)
    case (descend j m st1 m')
    from descend(1) have jk: "j = k" by simp
    from ih1[OF descend(3)[unfolded jk]]
    have a: "fresh st1 \<le> fresh st'"
      "mset (idents m') + mset (pool_ids st') =
        mset (idents m) + mset (pool_ids st1) + mset [fresh st1..<fresh st']" by auto
    from idents_set_slot[of "quadrant p b" m' "set_leaf False n"] descend(4)
    have s: "mset (idents n') +
        (case slot (quadrant p b) n of None \<Rightarrow> {#} | Some m \<Rightarrow> mset (idents m)) =
      mset (idents n) + mset (idents m')" by simp
    show ?thesis
    proof (cases "slot (quadrant p b) n")
      case None
      with descend(2) have "node st = (m, st1)" by simp
      from node_ids[OF this]
      have b: "fresh st \<le> fresh st1"
        "mset (idents m) + mset (pool_ids st1) = mset (pool_ids st) + mset [fresh st..<fresh st1]"
        by auto
      from s None have "mset (idents n') = mset (idents n) + mset (idents m')" by simp
      then have "mset (idents n') + mset (pool_ids st') =
          mset (idents n) + (mset (idents m') + mset (pool_ids st'))"
        by (simp only: ac_simps)
      also have "\<dots> =
          mset (idents n) + ((mset (idents m) + mset (pool_ids st1)) + mset [fresh st1..<fresh st'])"
        by (simp only: a(2))
      also have "\<dots> = mset (idents n) + mset (pool_ids st) +
          (mset [fresh st..<fresh st1] + mset [fresh st1..<fresh st'])"
        by (simp only: b(2) ac_simps)
      finally show ?thesis using a(1) b(1) by (simp add: upt_join del: mset_upt)
    next
      case (Some x)
      with descend(2) have e: "x = m" "st1 = st" by auto
      from s Some e have 1: "mset (idents n') + mset (idents m) = mset (idents n) + mset (idents m')"
        by simp
      from a(2) e have 2: "mset (idents m') + mset (pool_ids st') =
          mset (idents m) + mset (pool_ids st) + mset [fresh st..<fresh st']"
        by simp
      have "mset (idents n') + mset (pool_ids st') + mset (idents m) =
          (mset (idents n') + mset (idents m)) + mset (pool_ids st')"
        by (simp only: ac_simps)
      also have "\<dots> = (mset (idents n) + mset (idents m')) + mset (pool_ids st')"
        by (simp only: 1)
      also have "\<dots> = mset (idents n) + (mset (idents m') + mset (pool_ids st'))"
        by (simp only: ac_simps)
      also have "\<dots> =
          mset (idents n) + (mset (idents m) + mset (pool_ids st) + mset [fresh st..<fresh st'])"
        by (simp only: 2)
      also have "\<dots> = mset (idents n) + mset (pool_ids st) + mset [fresh st..<fresh st'] +
          mset (idents m)"
        by (simp only: ac_simps)
      finally have "mset (idents n') + mset (pool_ids st') =
          mset (idents n) + mset (pool_ids st) + mset [fresh st..<fresh st']"
        by (simp only: add_right_cancel)
      then show ?thesis using a(1) e by simp
    qed
  qed
  have ins: "fresh st \<le> fresh st' \<and>
      mset (idents n') + mset (pool_ids st') =
        mset (idents n) + mset (pool_ids st) + mset [fresh st..<fresh st']"
    if "insert_pt (Suc k) n p b st = Some (n', st')" for n p b st n' st'
    using that
  proof (cases rule: insert_pt_cases)
    case (rej j)
    then show ?thesis by (simp add: fail_def pool_ids_def)
  next
    case (attach j)
    then show ?thesis by simp
  next
    case (coinc j v)
    from coinc(1) have "j = k" by simp
    with coinc(6) show ?thesis by (blast dest: ih2)
  next
    case (split j v n1 st1)
    from split(1) have jk: "j = k" by simp
    from ih2[OF split(6)[unfolded jk]] ih2[OF split(7)[unfolded jk]]
    have a: "fresh st \<le> fresh st1" "fresh st1 \<le> fresh st'"
      "mset (idents n1) + mset (pool_ids st1) =
        mset (idents n) + mset (pool_ids st) + mset [fresh st..<fresh st1]"
      "mset (idents n') + mset (pool_ids st') =
        mset (idents n1) + mset (pool_ids st1) + mset [fresh st1..<fresh st']"
      by auto
    from a(3,4) have "mset (idents n') + mset (pool_ids st') =
        mset (idents n) + mset (pool_ids st) + (mset [fresh st..<fresh st1] + mset [fresh st1..<fresh st'])"
      by (simp only: ac_simps)
    with a(1,2) show ?thesis by (simp add: upt_join del: mset_upt)
  next
    case (inner j)
    from inner(1) have "j = k" by simp
    with inner(4) show ?thesis by (blast dest: ih2)
  qed
  from ch ins show ?case by blast
qed

lemma proper_step:
  assumes "proper n st" and "fresh st \<le> fresh st'"
    and "mset (idents n') + mset (pool_ids st') =
        mset (idents n) + mset (pool_ids st) + mset [fresh st..<fresh st']"
  shows "proper n' st'"
proof -
  have m: "mset (idents n' @ pool_ids st') = mset ((idents n @ pool_ids st) @ [fresh st..<fresh st'])"
    using assms(3) by simp
  have b: "\<forall>i \<in> set (idents n @ pool_ids st). i < fresh st"
    using assms(1) by (simp add: proper_def list_all_iff)
  then have "set (idents n @ pool_ids st) \<inter> set [fresh st..<fresh st'] = {}"
    by fastforce
  then have d: "distinct ((idents n @ pool_ids st) @ [fresh st..<fresh st'])"
    using assms(1) unfolding proper_def distinct_append[of "idents n @ pool_ids st"]
    by simp
  have "\<forall>i \<in> set (idents n @ pool_ids st). i < fresh st'"
    using b assms(2) by fastforce
  then have l: "list_all (\<lambda>i. i < fresh st') ((idents n @ pool_ids st) @ [fresh st..<fresh st'])"
    by (auto simp: list_all_iff)
  from m d have "distinct (idents n' @ pool_ids st')" by (metis mset_eq_imp_distinct_iff)
  moreover from m l have "list_all (\<lambda>i. i < fresh st') (idents n' @ pool_ids st')"
    unfolding list_all_iff by (metis mset_eq_setD)
  ultimately show ?thesis by (simp add: proper_def)
qed

lemma insert_proper:
  "proper n st \<Longrightarrow> insert_pt k n p b st = Some (n', st') \<Longrightarrow> proper n' st'"
  using insert_ids_aux[of k] proper_step by blast

lemma insert_all_proper:
  "proper r st \<Longrightarrow> insert_all k r ps b st = Some (r', st') \<Longrightarrow> proper r' st'"
proof (induction ps arbitrary: r st)
  case Nil
  then show ?case by simp
next
  case (Cons p ps)
  from Cons.prems(2) obtain r1 st1 where
    s1: "insert_pt k r p b st = Some (r1, st1)" and s2: "insert_all k r1 ps b st1 = Some (r', st')"
    by (auto split: option.splits)
  from Cons.IH[OF insert_proper[OF Cons.prems(1) s1] s2] show ?case .
qed

lemma cleared_idents: "cleared n \<Longrightarrow> idents n = [nid n]"
  by (cases n) (simp add: cleared_def)

lemma proper_pool_ids: "list_all cleared xs \<Longrightarrow> concat (map idents xs) = map nid xs"
  by (induction xs) (simp_all add: cleared_idents)

lemma node_proper:
  assumes "proper_pool st"
  shows "proper (fst (node st)) (snd (node st)) \<and> list_all cleared (cache (snd (node st)))"
proof (cases "cache st")
  case Nil
  then show ?thesis by (simp add: node_def proper_def pool_ids_def)
next
  case (Cons m rest)
  with assms have c: "list_all cleared (m # rest)" and d: "distinct (map nid (m # rest))"
    and l: "list_all (\<lambda>n. nid n < fresh st) (m # rest)"
    by (auto simp: proper_pool_def list_all_iff)
  from c have "idents m = [nid m]" "concat (map idents rest) = map nid rest"
    by (simp_all add: cleared_idents proper_pool_ids)
  with Cons c d l show ?thesis
    by (auto simp: node_def proper_def pool_ids_def list_all_iff)
qed

lemma insert_cache_aux:
  "(\<forall>n p b st n' st'. insert_pt k n p b st = Some (n', st') \<longrightarrow>
      (\<exists>xs. cache st = xs @ cache st')) \<and>
   (\<forall>n p b st n' st'. insertChild k n p b st = Some (n', st') \<longrightarrow>
      (\<exists>xs. cache st = xs @ cache st'))"
proof (induction k)
  case 0
  show ?case by simp
next
  case (Suc k)
  then have ih1: "insert_pt k n p b st = Some (n', st') \<Longrightarrow> \<exists>xs. cache st = xs @ cache st'"
    and ih2: "insertChild k n p b st = Some (n', st') \<Longrightarrow> \<exists>xs. cache st = xs @ cache st'"
    for n p b st n' st'
    by blast+
  have nd: "\<exists>xs. cache st = xs @ cache st1" if "node st = (m, st1)" for st m st1
    using that by (auto simp: node_def split: list.splits)
  have ch: "\<exists>xs. cache st = xs @ cache st'"
    if "insertChild (Suc k) n p b st = Some (n', st')" for n p b st n' st'
    using that
  proof (cases rule: insertChild_cases)
    case (descend j m st1 m')
    from descend(1) have jk: "j = k" by simp
    from ih1[OF descend(3)[unfolded jk]] obtain ys where ys: "cache st1 = ys @ cache st'" by blast
    have "\<exists>xs. cache st = xs @ cache st1"
      using descend(2) nd by (cases "slot (quadrant p b) n") auto
    with ys show ?thesis by (metis append.assoc)
  qed
  have ins: "\<exists>xs. cache st = xs @ cache st'"
    if "insert_pt (Suc k) n p b st = Some (n', st')" for n p b st n' st'
    using that
  proof (cases rule: insert_pt_cases)
    case (rej j)
    then show ?thesis by (simp add: fail_def)
  next
    case (attach j)
    then show ?thesis by simp
  next
    case (coinc j v)
    from coinc(1) have "j = k" by simp
    with coinc(6) show ?thesis by (blast dest: ih2)
  next
    case (split j v n1 st1)
    from split(1) have jk: "j = k" by simp
    from ih2[OF split(6)[unfolded jk]] ih2[OF split(7)[unfolded jk]]
    show ?thesis by (metis append.assoc)
  next
    case (inner j)
    from inner(1) have "j = k" by simp
    with inner(4) show ?thesis by (blast dest: ih2)
  qed
  from ch ins show ?case by blast
qed

lemma insert_all_cache:
  "insert_all k r ps b st = Some (r', st') \<Longrightarrow> \<exists>xs. cache st = xs @ cache st'"
proof (induction ps arbitrary: r st)
  case Nil
  then show ?case by simp
next
  case (Cons p ps)
  from Cons.prems obtain r1 st1 where
    s1: "insert_pt k r p b st = Some (r1, st1)" and s2: "insert_all k r1 ps b st1 = Some (r', st')"
    by (auto split: option.splits)
  from s1 obtain xs where "cache st = xs @ cache st1" using insert_cache_aux[of k] by blast
  with Cons.IH[OF s2] show ?case by (metis append.assoc)
qed

lemma Quadtree_proper:
  assumes "proper_pool st" and "Quadtree k ps st = Some (t, st')"
  shows "distinct (idents (root t)) \<and> proper_pool st' \<and>
         list_all (\<lambda>i. i < fresh st') (idents (root t)) \<and>
         set (idents (root t)) \<inter> nid ` set (cache st') = {}"
proof -
  from node_proper[OF assms(1)]
  have p0: "proper (fst (node st)) (snd (node st))" and c0: "list_all cleared (cache (snd (node st)))"
    by auto
  from insert_all_proper[OF p0 Quadtree_SomeD(1)[OF assms(2)]] have p: "proper (root t) st'" .
  from insert_all_cache[OF Quadtree_SomeD(1)[OF assms(2)]] c0
  have c: "list_all cleared (cache st')" by auto
  then have i: "pool_ids st' = map nid (cache st')" by (simp add: pool_ids_def proper_pool_ids)
  from p c show ?thesis
    unfolding proper_def proper_pool_def i by (auto simp: list_all_iff)
qed

lemma dispose_tree_proper:
  assumes "proper_pool st" and "distinct (idents (root t))"
    and "list_all (\<lambda>i. i < fresh st) (idents (root t))"
    and "set (idents (root t)) \<inter> nid ` set (cache st) = {}"
  shows "proper_pool (dispose_tree t st)"
proof -
  have d: "cache (dispose_tree t st) = dispose (root t) [] @ cache st"
    using dispose_append[of "root t" "cache st"] by (simp add: dispose_tree_def)
  have f: "fresh (dispose_tree t st) = fresh st" by (simp add: dispose_tree_def)
  have m: "mset (map nid (dispose (root t) [])) = mset (idents (root t))" by (rule dispose_idents)
  then have s: "set (map nid (dispose (root t) [])) = set (idents (root t))" by (rule mset_eq_setD)
  from m assms(2) have dd: "distinct (map nid (dispose (root t) []))"
    by (metis mset_eq_imp_distinct_iff)
  have "distinct (map nid (dispose (root t) [] @ cache st))"
    using dd assms(1,4) s by (auto simp: proper_pool_def)
  moreover have "list_all (\<lambda>n. cleared n \<and> nid n < fresh st) (dispose (root t) [] @ cache st)"
    using dispose_cleared[of "root t"] assms(1,3) s
    by (auto simp: proper_pool_def list_all_iff)
  ultimately show ?thesis unfolding proper_pool_def d f by simp
qed

lemma proper_pool_empty: "proper_pool empty_pool"
  by (simp add: proper_pool_def empty_pool_def)

lemma cleared_nonleaf_inv: "cleared n \<Longrightarrow> nonleaf_inv n"
  by (cases n) (simp add: cleared_def)

lemma proper_pool_cleared: "proper_pool st \<Longrightarrow> list_all cleared (cache st)"
  by (simp add: proper_pool_def list_all_iff)

lemma proper_pool_nonleaf_inv: "proper_pool st \<Longrightarrow> list_all nonleaf_inv (cache st)"
  by (simp add: proper_pool_def list_all_iff cleared_nonleaf_inv)

section \<open>Builds that return\<close>

text \<open>
  The depth of the calls is bounded when the particles are separable: a particle that
  meets a leaf with another particle is either coincident with it, and goes down one
  level, or diverges from it within \<open>d\<close> levels, and the split of lines 56-63 ends after
  at most \<open>d\<close> levels.
\<close>

lemma slot_cases4:
  assumes "c < 4"
  obtains "c = 0" "slot c n = c1 n" | "c = 1" "slot c n = c2 n" | "c = 2" "slot c n = c3 n"
    | "c = 3" "slot c n = c4 n"
proof -
  from assms have "c = 0 \<or> c = 1 \<or> c = 2 \<or> c = 3" by arith
  then show ?thesis using that by (auto simp: slot_def)
qed

lemma no_kids_slot: "no_kids n \<Longrightarrow> slot c n = None"
  by (simp add: no_kids_def slot_def)

lemma cleared_facts:
  "cleared n \<Longrightarrow> leaf n \<and> pnt n = None \<and> no_kids n \<and> particles n = [] \<and> leaf_inv n \<and> routed n b"
  by (cases n) (simp add: cleared_def no_kids_def)

lemma node_clean:
  assumes "list_all cleared (cache st)"
  shows "cleared (fst (node st))" "list_all cleared (cache (snd (node st)))"
  using assms by (auto simp: node_def cleared_def split: list.splits)

lemma attach:
  "\<not> rejected p \<Longrightarrow> leaf n \<Longrightarrow> pnt n = None \<Longrightarrow>
   insert_pt (Suc k) n p b st = Some (set_pnt (Some p) n, st)"
  by simp

text \<open>
  \<^verbatim>\<open>insertChild\<close> into an empty slot, with a free list of cleared nodes, takes two
  nested calls.
\<close>

lemma insertChild_fresh:
  assumes "\<not> rejected p" "slot (quadrant p b) n = None" "list_all cleared (cache st)"
  shows "insertChild (Suc (Suc k)) n p b st =
     Some (set_slot (quadrant p b) (set_pnt (Some p) (fst (node st))) (set_leaf False n),
           snd (node st))"
proof -
  from node_clean(1)[OF assms(3)] cleared_facts[of "fst (node st)"]
  have m: "leaf (fst (node st))" "pnt (fst (node st)) = None" by auto
  obtain m st1 where nd: "node st = (m, st1)" by (cases "node st")
  with m have "insert_pt (Suc k) m p (narrow (quadrant p b) b) st1 = Some (set_pnt (Some p) m, st1)"
    using assms(1) by (simp del: insert_pt.simps add: attach)
  with nd assms(2) show ?thesis
    by (simp add: Let_def del: insert_pt.simps)
qed


lemma no_kids_set [simp]:
  "no_kids (set_pnt v n) = no_kids n" "no_kids (set_leaf w n) = no_kids n"
  by (simp_all add: no_kids_def)

lemma insertChild_descend:
  assumes "slot (quadrant p b) n = Some m"
    and "insert_pt k m p (narrow (quadrant p b) b) st = Some (m', st')"
  shows "insertChild (Suc k) n p b st =
     Some (set_slot (quadrant p b) m' (set_leaf False n), st')"
  using assms by (simp add: Let_def del: insert_pt.simps)

lemma split_returns:
  "\<not> rejected v \<Longrightarrow> \<not> rejected p \<Longrightarrow> diverge d v p b \<Longrightarrow> \<not> coincident v p \<Longrightarrow>
   leaf n \<Longrightarrow> pnt n = Some v \<Longrightarrow> no_kids n \<Longrightarrow> list_all cleared (cache st) \<Longrightarrow>
   \<exists>r. insert_pt (Suc (2 * d)) n p b st = Some r"
proof (induction d arbitrary: n b st)
  case 0
  then show ?case by simp
next
  case (Suc e)
  define cv where "cv = quadrant v b"
  define m0 where "m0 = fst (node st)"
  define st1 where "st1 = snd (node st)"
  define mv where "mv = set_pnt (Some v) m0"
  define n1 where "n1 = set_slot cv mv (set_leaf False (set_pnt None n))"
  have c0: "cleared m0" and cl1: "list_all cleared (cache st1)"
    using node_clean[OF Suc.prems(8)] by (simp_all add: m0_def st1_def)
  have a: "insertChild (Suc (Suc (2 * e))) (set_pnt None n) v b st = Some (n1, st1)"
    using insertChild_fresh[OF Suc.prems(1) _ Suc.prems(8), of b "set_pnt None n" "2 * e"]
      no_kids_slot[of "set_pnt None n"] Suc.prems(7)
    by (simp add: n1_def mv_def m0_def st1_def cv_def del: insertChild.simps)
  have "\<exists>r. insertChild (Suc (Suc (2 * e))) n1 p b st1 = Some r"
  proof (cases "quadrant p b = cv")
    case False
    have "slot (quadrant p b) n1 = None"
      using False quadrant_lt4[of p b] quadrant_lt4[of v b] Suc.prems(7)
      by (simp add: n1_def cv_def slot_set_slot_other no_kids_slot)
    from insertChild_fresh[OF Suc.prems(2) this cl1, of "2 * e"] show ?thesis by blast
  next
    case True
    with Suc.prems(3) have dv: "diverge e v p (narrow (quadrant p b) b)" by (simp add: cv_def)
    have s: "slot (quadrant p b) n1 = Some mv" by (simp add: True n1_def)
    have mvf: "leaf mv" "pnt mv = Some v" "no_kids mv"
      using cleared_facts[OF c0] by (simp_all add: mv_def)
    from Suc.IH[OF Suc.prems(1,2) dv Suc.prems(4) mvf cl1]
    obtain r where "insert_pt (Suc (2 * e)) mv p (narrow (quadrant p b) b) st1 = Some r" by blast
    with insertChild_descend[OF s, of "Suc (2 * e)" st1 "fst r" "snd r"] show ?thesis
      by (cases r) (simp del: insert_pt.simps insertChild.simps)
  qed
  then obtain r where b: "insertChild (Suc (Suc (2 * e))) n1 p b st1 = Some r" by blast
  have "insert_pt (Suc (2 * Suc e)) n p b st = Some r"
    using Suc.prems(2,4,5,6) a b by (simp del: insertChild.simps)
  then show ?case by blast
qed

lemma particles_set_leaf [simp]: "particles (set_leaf w n) = particles n"
  by (cases n) simp

lemma particles_set_pnt: "set (particles (set_pnt w n)) \<subseteq> set (particles n) \<union> set_option w"
  by (cases n) (auto split: option.splits)

lemma particles_set_pnt_None: "set (particles (set_pnt None n)) \<subseteq> set (particles n)"
  using particles_set_pnt[of None n] by simp

lemma particles_pnt: "pnt n = Some v \<Longrightarrow> v \<in> set (particles n)"
  by (cases n) simp

lemma particles_set_slot:
  "set (particles (set_slot c m' n)) \<subseteq> set (particles n) \<union> set (particles m')"
  by (cases n) (auto split: option.splits)

lemma particles_slot: "slot c n = Some m \<Longrightarrow> set (particles m) \<subseteq> set (particles n)"
  by (cases n) (auto simp: slot_def split: if_splits)

lemma leaf_inv_set_pnt [simp]: "leaf_inv (set_pnt w n) = leaf_inv n"
  by (cases n) simp

lemma leaf_inv_slot: "leaf_inv n \<Longrightarrow> slot c n = Some m \<Longrightarrow> leaf_inv m"
  by (cases n) (auto simp: slot_def split: if_splits)

lemma leaf_inv_no_kids: "leaf_inv n \<Longrightarrow> leaf n \<Longrightarrow> no_kids n"
  by (cases n) (simp add: no_kids_def)

lemma leaf_inv_set_slot:
  "leaf_inv n \<Longrightarrow> leaf_inv m' \<Longrightarrow> leaf_inv (set_slot c m' (set_leaf False n))"
  by (cases n) (simp split: option.splits)

lemma routed_set_leaf [simp]: "routed (set_leaf w n) b = routed n b"
  by (cases n) simp

lemma routed_set_pnt [simp]: "routed (set_pnt w n) b = routed n b"
  by (cases n) simp

lemma routed_sel:
  "routed n b \<Longrightarrow> c1 n = Some m \<Longrightarrow>
     list_all (\<lambda>v. quadrant v b = 0) (particles m) \<and> routed m (narrow 0 b)"
  "routed n b \<Longrightarrow> c2 n = Some m \<Longrightarrow>
     list_all (\<lambda>v. quadrant v b = 1) (particles m) \<and> routed m (narrow 1 b)"
  "routed n b \<Longrightarrow> c3 n = Some m \<Longrightarrow>
     list_all (\<lambda>v. quadrant v b = 2) (particles m) \<and> routed m (narrow 2 b)"
  "routed n b \<Longrightarrow> c4 n = Some m \<Longrightarrow>
     list_all (\<lambda>v. quadrant v b = 3) (particles m) \<and> routed m (narrow 3 b)"
  by (cases n; simp)+

lemma routed_slot:
  assumes "routed n b" "c < 4" "slot c n = Some m"
  shows "list_all (\<lambda>v. quadrant v b = c) (particles m) \<and> routed m (narrow c b)"
  using assms(2)
proof (cases rule: slot_cases4[where n = n])
  case 1
  with assms(3) have "c1 n = Some m" by simp
  from routed_sel(1)[OF assms(1) this] 1(1) show ?thesis by simp
next
  case 2
  with assms(3) have "c2 n = Some m" by simp
  from routed_sel(2)[OF assms(1) this] 2(1) show ?thesis by simp
next
  case 3
  with assms(3) have "c3 n = Some m" by simp
  from routed_sel(3)[OF assms(1) this] 3(1) show ?thesis by simp
next
  case 4
  with assms(3) have "c4 n = Some m" by simp
  from routed_sel(4)[OF assms(1) this] 4(1) show ?thesis by simp
qed

lemma routed_set_slot:
  assumes "routed n b" "c < 4" "list_all (\<lambda>v. quadrant v b = c) (particles m')"
    "routed m' (narrow c b)"
  shows "routed (set_slot c m' n) b"
proof -
  obtain i l q a b' c' d where n: "n = Node i l q a b' c' d" by (cases n)
  from assms(2) consider "c = 0" | "c = 1" | "c = 2" | "c = 3" by arith
  then show ?thesis
  proof cases
    case 1
    with assms(1,3,4) show ?thesis by (simp add: n)
  next
    case 2
    with assms(1,3,4) show ?thesis by (simp add: n)
  next
    case 3
    with assms(1,3,4) show ?thesis by (simp add: n)
  next
    case 4
    with assms(1,3,4) show ?thesis by (simp add: n)
  qed
qed

lemma insert_good_aux:
  "(\<forall>n p b st n' st'. good n b st \<longrightarrow> insert_pt k n p b st = Some (n', st') \<longrightarrow>
      good n' b st' \<and> set (particles n') \<subseteq> set (particles n) \<union> {p}) \<and>
   (\<forall>n p b st n' st'. good n b st \<longrightarrow> insertChild k n p b st = Some (n', st') \<longrightarrow>
      good n' b st' \<and> set (particles n') \<subseteq> set (particles n) \<union> {p})"
proof (induction k)
  case 0
  show ?case by simp
next
  case (Suc k)
  then have ih1: "good n b st \<Longrightarrow> insert_pt k n p b st = Some (n', st') \<Longrightarrow>
      good n' b st' \<and> set (particles n') \<subseteq> set (particles n) \<union> {p}"
    and ih2: "good n b st \<Longrightarrow> insertChild k n p b st = Some (n', st') \<Longrightarrow>
      good n' b st' \<and> set (particles n') \<subseteq> set (particles n) \<union> {p}"
    for n p b st n' st'
    by blast+
  have ch: "good n' b st' \<and> set (particles n') \<subseteq> set (particles n) \<union> {p}"
    if g: "good n b st" and "insertChild (Suc k) n p b st = Some (n', st')"
    for n p b st n' st'
    using that(2)
  proof (cases rule: insertChild_cases)
    case (descend j m st1 m')
    define c where "c = quadrant p b"
    have c4: "c < 4" by (simp add: c_def quadrant_lt4)
    from descend(1) have jk: "j = k" by simp
    from g have li: "leaf_inv n" and ro: "routed n b" and cl: "list_all cleared (cache st)"
      by (simp_all add: good_def)
    have gm: "good m (narrow c b) st1 \<and> list_all (\<lambda>v. quadrant v b = c) (particles m) \<and>
        set (particles m) \<subseteq> set (particles n)"
    proof (cases "slot c n")
      case None
      with descend(2) have e: "m = fst (node st)" "st1 = snd (node st)" by (auto simp: c_def)
      from node_clean[OF cl] cleared_facts[of "fst (node st)" "narrow c b"] e
      show ?thesis by (simp add: good_def)
    next
      case (Some x)
      with descend(2) have e: "x = m" "st1 = st" by (auto simp: c_def)
      from Some e leaf_inv_slot[OF li, of c m] routed_slot[OF ro c4, of m] particles_slot[of c n m] cl
      show ?thesis by (simp add: good_def)
    qed
    from ih1[OF _ descend(3)[unfolded jk]] gm
    have gm': "good m' (narrow c b) st'" and pm': "set (particles m') \<subseteq> set (particles m) \<union> {p}"
      by (auto simp: c_def)
    have qa: "list_all (\<lambda>v. quadrant v b = c) (particles m')"
      using gm pm' unfolding list_all_iff c_def by auto
    have n': "n' = set_slot c m' (set_leaf False n)" using descend(4) by (simp add: c_def)
    have "leaf_inv n'" using leaf_inv_set_slot[OF li, of m' c] gm' by (simp add: n' good_def)
    moreover have "routed n' b"
      using routed_set_slot[of "set_leaf False n" b c m'] ro c4 qa gm'
      by (simp add: n' good_def)
    moreover have "set (particles n') \<subseteq> set (particles n) \<union> {p}"
      using particles_set_slot[of c m' "set_leaf False n"] pm' gm by (auto simp: n')
    ultimately show ?thesis using gm' by (simp add: good_def)
  qed
  have ins: "good n' b st' \<and> set (particles n') \<subseteq> set (particles n) \<union> {p}"
    if g: "good n b st" and "insert_pt (Suc k) n p b st = Some (n', st')"
    for n p b st n' st'
    using that(2)
  proof (cases rule: insert_pt_cases)
    case (rej j)
    with g show ?thesis by (auto simp: good_def fail_def)
  next
    case (attach j)
    with g particles_set_pnt[of "Some p" n] show ?thesis by (auto simp: good_def)
  next
    case (coinc j v)
    from coinc(1) have jk: "j = k" by simp
    from ih2[OF g coinc(6)[unfolded jk]] show ?thesis .
  next
    case (split j v n1 st1)
    from split(1) have jk: "j = k" by simp
    from g have g0: "good (set_pnt None n) b st" by (simp add: good_def)
    from ih2[OF g0 split(6)[unfolded jk]]
    have g1: "good n1 b st1" and p1: "set (particles n1) \<subseteq> set (particles (set_pnt None n)) \<union> {v}"
      by auto
    from p1 particles_set_pnt_None[of n] particles_pnt[OF split(4)]
    have p1': "set (particles n1) \<subseteq> set (particles n)" by auto
    from ih2[OF g1 split(7)[unfolded jk]] p1' show ?thesis by auto
  next
    case (inner j)
    from inner(1) have jk: "j = k" by simp
    from ih2[OF g inner(4)[unfolded jk]] show ?thesis .
  qed
  from ch ins show ?case by blast
qed

lemma insert_good:
  "good n b st \<Longrightarrow> insert_pt k n p b st = Some (n', st') \<Longrightarrow>
   good n' b st' \<and> set (particles n') \<subseteq> set (particles n) \<union> {p}"
  using insert_good_aux[of k] by blast


lemma slot_size: "slot c n = Some m \<Longrightarrow> size m < size n"
  by (cases n) (auto simp: slot_def split: if_splits)

lemma diverge_same:
  "diverge d v p b \<Longrightarrow> quadrant v b = quadrant p b \<Longrightarrow>
   diverge (d - 1) v p (narrow (quadrant p b) b)"
  by (cases d) auto

lemma insert_returns:
  assumes "good n b st"
    and "\<forall>v\<in>set (particles n). \<not> rejected v \<and> (coincident v p \<or> diverge d v p b)"
  shows "\<exists>k r. insert_pt k n p b st = Some r"
  using assms
proof (induction "size n" arbitrary: n b d st rule: less_induct)
  case less
  from less.prems(1) have li: "leaf_inv n" and ro: "routed n b"
    and cl: "list_all cleared (cache st)"
    by (simp_all add: good_def)
  show ?case
  proof (cases "rejected p")
    case True
    then have "insert_pt (Suc 0) n p b st = Some (n, fail st)" by simp
    then show ?thesis by blast
  next
    case rj: False
    define c where "c = quadrant p b"
    have fresh3: "\<exists>k r. insert_pt k n p b st = Some r"
      if sl: "slot c n = None" and "\<not> leaf n \<or> (\<exists>v. pnt n = Some v \<and> coincident v p)"
    proof -
      from insertChild_fresh[OF rj sl[unfolded c_def] cl, of 0]
      obtain r where "insertChild (Suc (Suc 0)) n p b st = Some r" by blast
      with that(2) rj have "insert_pt (Suc (Suc (Suc 0))) n p b st = Some r"
        by (auto simp del: insertChild.simps)
      then show ?thesis by blast
    qed
    show ?thesis
    proof (cases "leaf n")
      case lf: True
      from leaf_inv_no_kids[OF li lf] have nk: "no_kids n" .
      show ?thesis
      proof (cases "pnt n")
        case None
        with rj lf have "insert_pt (Suc 0) n p b st = Some (set_pnt (Some p) n, st)" by simp
        then show ?thesis by blast
      next
        case (Some v)
        from particles_pnt[OF Some] less.prems(2)
        have v: "\<not> rejected v" "coincident v p \<or> diverge d v p b" by auto
        show ?thesis
        proof (cases "coincident v p")
          case True
          with Some fresh3[OF no_kids_slot[OF nk]] show ?thesis by blast
        next
          case False
          with v(2) have "diverge d v p b" by simp
          from split_returns[OF v(1) rj this False lf Some nk cl] show ?thesis by blast
        qed
      qed
    next
      case nl: False
      show ?thesis
      proof (cases "slot c n")
        case None
        with fresh3 nl show ?thesis by blast
      next
        case (Some m)
        have c4: "c < 4" by (simp add: c_def quadrant_lt4)
        from routed_slot[OF ro c4 Some]
        have qm: "list_all (\<lambda>v. quadrant v b = c) (particles m)" and rm: "routed m (narrow c b)"
          by auto
        have gm: "good m (narrow c b) st"
          using leaf_inv_slot[OF li Some] rm cl by (simp add: good_def)
        have hm: "\<forall>v\<in>set (particles m).
            \<not> rejected v \<and> (coincident v p \<or> diverge (d - 1) v p (narrow c b))"
        proof
          fix v assume vm: "v \<in> set (particles m)"
          with particles_slot[OF Some] have "v \<in> set (particles n)" by auto
          with less.prems(2) have v: "\<not> rejected v" "coincident v p \<or> diverge d v p b" by auto
          from vm qm have "quadrant v b = quadrant p b" by (simp add: list_all_iff c_def)
          with v diverge_same[of d v p b]
          show "\<not> rejected v \<and> (coincident v p \<or> diverge (d - 1) v p (narrow c b))"
            by (auto simp: c_def)
        qed
        from less.hyps[OF slot_size[OF Some] gm hm]
        obtain k r where "insert_pt k m p (narrow c b) st = Some r" by blast
        then obtain m' st' where i: "insert_pt k m p (narrow c b) st = Some (m', st')"
          by (cases r) auto
        from insertChild_descend[OF Some[unfolded c_def] i[unfolded c_def]]
        have "insertChild (Suc k) n p b st =
            Some (set_slot (quadrant p b) m' (set_leaf False n), st')" .
        with rj nl have "insert_pt (Suc (Suc k)) n p b st =
            Some (set_slot (quadrant p b) m' (set_leaf False n), st')"
          by (simp del: insertChild.simps)
        then show ?thesis by blast
      qed
    qed
  qed
qed

lemma insert_all_returns:
  assumes "good r b st"
    and "\<forall>v\<in>set (particles r). \<not> rejected v"
    and "\<forall>v\<in>set (particles r) \<union> set ps. \<forall>p\<in>set ps. apart D b v p"
  shows "\<exists>k res. insert_all k r ps b st = Some res"
  using assms
proof (induction ps arbitrary: r st)
  case Nil
  show ?case by simp
next
  case (Cons p ps)
  have "\<exists>k r1 st1. insert_pt k r p b st = Some (r1, st1) \<and> good r1 b st1 \<and>
      set (particles r1) \<subseteq> set (particles r) \<union> {p} \<and> (\<forall>v\<in>set (particles r1). \<not> rejected v)"
  proof (cases "rejected p")
    case True
    then have "insert_pt (Suc 0) r p b st = Some (r, fail st)" by simp
    moreover have "good r b (fail st)" using Cons.prems(1) by (simp add: good_def fail_def)
    ultimately show ?thesis using Cons.prems(2) by blast
  next
    case False
    have "\<forall>v\<in>set (particles r). \<not> rejected v \<and> (coincident v p \<or> diverge D v p b)"
      using Cons.prems(2,3) False by (auto simp: apart_def)
    from insert_returns[OF Cons.prems(1) this]
    obtain k x where "insert_pt k r p b st = Some x" by blast
    then obtain r1 st1 where i: "insert_pt k r p b st = Some (r1, st1)" by (cases x) auto
    from insert_good[OF Cons.prems(1) i]
    have g: "good r1 b st1" "set (particles r1) \<subseteq> set (particles r) \<union> {p}" by auto
    with Cons.prems(2) False have "\<forall>v\<in>set (particles r1). \<not> rejected v" by auto
    with i g show ?thesis by blast
  qed
  then obtain k1 r1 st1 where i: "insert_pt k1 r p b st = Some (r1, st1)"
    and g: "good r1 b st1" and s: "set (particles r1) \<subseteq> set (particles r) \<union> {p}"
    and nr: "\<forall>v\<in>set (particles r1). \<not> rejected v"
    by blast
  have "\<forall>v\<in>set (particles r1) \<union> set ps. \<forall>q\<in>set ps. apart D b v q"
    using Cons.prems(3) s by auto
  from Cons.IH[OF g nr this]
  obtain k2 res where a: "insert_all k2 r1 ps b st1 = Some res" by blast
  from insert_fuel_mono[OF i, of "max k1 k2"] insert_all_fuel_mono[OF a, of "max k1 k2"]
  have "insert_all (max k1 k2) r (p # ps) b st = Some res" by simp
  then show ?case by blast
qed

lemma Quadtree_returns:
  assumes "list_all cleared (cache st)" and "separable D ps (squarify (scan ps))"
  shows "\<exists>k t st'. Quadtree k ps st = Some (t, st')"
proof -
  define b where "b = squarify (scan ps)"
  from node_clean[OF assms(1)] cleared_facts[of "fst (node st)" b]
  have g: "good (fst (node st)) b (snd (node st))" and e: "particles (fst (node st)) = []"
    by (simp_all add: good_def)
  have "\<forall>v\<in>set (particles (fst (node st))) \<union> set ps. \<forall>p\<in>set ps. apart D b v p"
    using assms(2) by (simp add: e separable_def list_all_iff b_def)
  from insert_all_returns[OF g _ this] e
  obtain k res where "insert_all k (fst (node st)) ps b (snd (node st)) = Some res" by auto
  then obtain r' s' where i: "insert_all k (fst (node st)) ps b (snd (node st)) = Some (r', s')"
    by (cases res) auto
  obtain x1 y1 x2 y2 where sq: "squarify (scan ps) = (x1, y1, x2, y2)"
    by (cases "squarify (scan ps)") auto
  obtain r0 st0 where nd: "node st = (r0, st0)" by (cases "node st")
  from i have "Quadtree k ps st =
      Some (\<lparr>root = r', xMin = x1, yMin = y1, xMax = x2, yMax = y2\<rparr>, s')"
    by (simp add: Quadtree_def b_def sq nd)
  then show ?thesis by blast
qed

text \<open>
  The four corners: the region, the tree, and the quadrants of the particles.
\<close>

lemmas four_defs = four_a_def four_b_def four_c_def four_d_def

lemma four_region: "squarify (scan [four_a, four_b, four_c, four_d]) = (Fin 0, Fin 0, Fin 10, Fin 10)"
  by (simp add: four_defs scan_def scan_step_def squarify_def js_eval)

lemma Quadtree_four:
  "Quadtree (Suc (Suc (Suc 0))) [four_a, four_b, four_c, four_d] empty_pool =
     Some (four_tree, \<lparr>cache = [], fresh = 5, fails = 0\<rparr>)"
  by (simp add: four_defs four_tree_def empty_pool_def tree_eval)

lemma four_quadrants:
  "quadrant four_a (Fin 0, Fin 0, Fin 10, Fin 10) = 0"
  "quadrant four_b (Fin 0, Fin 0, Fin 10, Fin 10) = 1"
  "quadrant four_c (Fin 0, Fin 0, Fin 10, Fin 10) = 2"
  "quadrant four_d (Fin 0, Fin 0, Fin 10, Fin 10) = 3"
  by (simp_all add: four_defs quadrant_def Spec2Isabelle.split_def js_eval)

lemma four_coincident:
  "coincident four_a four_a" "coincident four_b four_b" "coincident four_c four_c"
  "coincident four_d four_d"
  by (simp_all add: four_defs coincident_def js_eval)

lemma four_separable:
  "separable (Suc 0) [four_a, four_b, four_c, four_d]
     (squarify (scan [four_a, four_b, four_c, four_d]))"
  unfolding four_region
  by (simp add: separable_def apart_def four_quadrants four_coincident)

section \<open>The claims\<close>

text \<open>
  C1. Every particle of the list that passes the test of line 43 is held by a node on its
  own walk from the root of the tree that the constructor returns: the walk computes the
  quadrant again at each level from the coordinates of the particle and the bounds,
  starting from the stored region, and the particle is attached to the node the walk
  ends in or to a node it passes. And the constructor does return, from a free list of
  cleared nodes, for every list of particles that is separable within some number of
  levels of its region: from some depth of calls on, every depth gives the same tree,
  and that tree holds every particle of the list that passes the test of line 43.
\<close>

theorem containment:
  "(Quadtree k ps st = Some (t, st') \<longrightarrow> q \<in> set ps \<longrightarrow> \<not> rejected q \<longrightarrow>
      holds (root t) q (region t)) \<and>
   (list_all cleared (cache st) \<longrightarrow> separable D ps (squarify (scan ps)) \<longrightarrow>
      (\<exists>k0 t0 s0. (\<forall>j\<ge>k0. Quadtree j ps st = Some (t0, s0)) \<and>
         list_all (\<lambda>v. rejected v \<or> holds (root t0) v (region t0)) ps))"
proof (intro conjI impI)
  assume a: "Quadtree k ps st = Some (t, st')" "q \<in> set ps" "\<not> rejected q"
  from insert_all_holds[OF a(2,3) Quadtree_SomeD(1)[OF a(1)]] Quadtree_SomeD(2)[OF a(1)]
  show "holds (root t) q (region t)" by simp
next
  assume "list_all cleared (cache st)" "separable D ps (squarify (scan ps))"
  from Quadtree_returns[OF this]
  obtain k0 t0 s0 where r: "Quadtree k0 ps st = Some (t0, s0)" by blast
  have m: "\<forall>j\<ge>k0. Quadtree j ps st = Some (t0, s0)"
    using Quadtree_fuel_mono[OF r] by blast
  have "list_all (\<lambda>v. rejected v \<or> holds (root t0) v (region t0)) ps"
    unfolding list_all_iff
  proof
    fix v assume "v \<in> set ps"
    from insert_all_holds[OF this _ Quadtree_SomeD(1)[OF r]] Quadtree_SomeD(2)[OF r]
    show "rejected v \<or> holds (root t0) v (region t0)" by auto
  qed
  with m show "\<exists>k0 t0 s0. (\<forall>j\<ge>k0. Quadtree j ps st = Some (t0, s0)) \<and>
         list_all (\<lambda>v. rejected v \<or> holds (root t0) v (region t0)) ps" by blast
qed

theorem containment_witness:
  "Quadtree (Suc (Suc (Suc 0))) [four_a, four_b, four_c, four_d] empty_pool =
     Some (four_tree, \<lparr>cache = [], fresh = 5, fails = 0\<rparr>) \<and>
   four_c \<in> set [four_a, four_b, four_c, four_d] \<and> \<not> rejected four_c \<and>
   holds (root four_tree) four_c (region four_tree) \<and>
   list_all cleared (cache empty_pool) \<and>
   separable (Suc 0) [four_a, four_b, four_c, four_d]
     (squarify (scan [four_a, four_b, four_c, four_d])) \<and>
   (\<exists>k0 t0 s0.
      (\<forall>j\<ge>k0. Quadtree j [four_a, four_b, four_c, four_d] empty_pool = Some (t0, s0)) \<and>
      list_all (\<lambda>v. rejected v \<or> holds (root t0) v (region t0)) [four_a, four_b, four_c, four_d])"
proof -
  have m: "four_c \<in> set [four_a, four_b, four_c, four_d]" by simp
  have r: "\<not> rejected four_c" by (simp add: rejected_def four_c_def)
  have c: "list_all cleared (cache empty_pool)" by (simp add: empty_pool_def)
  from containment[of "Suc (Suc (Suc 0))" "[four_a, four_b, four_c, four_d]" empty_pool
      four_tree "\<lparr>cache = [], fresh = 5, fails = 0\<rparr>" four_c "Suc 0"]
    Quadtree_four m r c four_separable
  show ?thesis by blast
qed

text \<open>
  C2, as amended. A particle \<open>p\<close> of the list with \<^verbatim>\<open>x\<close> or \<^verbatim>\<open>y\<close> not a number is
  dropped: in the same bounds, the loop over the list with \<open>p\<close> gives what the loop over
  the list without \<open>p\<close> gives, with one more call of \<^verbatim>\<open>fail()\<close>, and it returns when
  that one does. The bounds are scanned over all the particles, \<open>p\<close> too, so the tree of
  the constructor is the tree built without \<open>p\<close> when \<open>p\<close> leaves the scanned bounds
  as they are, as it does when both its coordinates are not numbers.
\<close>

theorem nan_dropped:
  assumes "rejected p"
  shows "insert_all (Suc k) r (xs @ p # ys) b st =
           map_option (\<lambda>(r', s). (r', fail s)) (insert_all (Suc k) r (xs @ ys) b st) \<and>
         (scan (xs @ p # ys) = scan (xs @ ys) \<longrightarrow>
            Quadtree (Suc k) (xs @ p # ys) st =
              map_option (\<lambda>(t, s). (t, fail s)) (Quadtree (Suc k) (xs @ ys) st)) \<and>
         (isNaN (px p) \<and> isNaN (py p) \<longrightarrow> scan (xs @ p # ys) = scan (xs @ ys))"
proof (intro conjI impI)
  show "insert_all (Suc k) r (xs @ p # ys) b st =
           map_option (\<lambda>(r', s). (r', fail s)) (insert_all (Suc k) r (xs @ ys) b st)"
    using assms by (rule insert_all_drop)
next
  assume s: "scan (xs @ p # ys) = scan (xs @ ys)"
  show "Quadtree (Suc k) (xs @ p # ys) st =
              map_option (\<lambda>(t, s). (t, fail s)) (Quadtree (Suc k) (xs @ ys) st)"
    unfolding Quadtree_def s
    by (simp add: insert_all_drop[OF assms] split: prod.splits option.splits)
next
  assume "isNaN (px p) \<and> isNaN (py p)"
  then show "scan (xs @ p # ys) = scan (xs @ ys)" by (simp add: scan_drop_nan)
qed

theorem nan_dropped_counterexample:
  "rejected ex_nan \<and>
   Quadtree (Suc (Suc (Suc (Suc (Suc 0))))) [ex_nan, ex_a, ex_b] empty_pool =
     Some (ex_nan_tree, \<lparr>cache = [], fresh = 4, fails = 1\<rparr>) \<and>
   Quadtree (Suc (Suc (Suc (Suc (Suc 0))))) [ex_a, ex_b] empty_pool =
     Some (ex_tree, \<lparr>cache = [], fresh = 3, fails = 0\<rparr>) \<and>
   count_nodes (root ex_nan_tree) = 4 \<and> count_nodes (root ex_tree) = 3 \<and>
   root ex_nan_tree \<noteq> root ex_tree"
  by (simp add: Quadtree_ex_nan Quadtree_ex5)
    (simp add: ex_nan_def rejected_def count_nodes_def ex_nan_tree_def ex_tree_def)

theorem nan_dropped_witness:
  "rejected ex_mid \<and> scan ([ex_a] @ ex_mid # [ex_b]) = scan ([ex_a] @ [ex_b]) \<and>
   Quadtree (Suc (Suc (Suc 0))) ([ex_a] @ ex_mid # [ex_b]) empty_pool =
     Some (ex_tree, \<lparr>cache = [], fresh = 3, fails = 1\<rparr>) \<and>
   isNaN (px \<lparr>pid = 4, px = NaN, py = NaN\<rparr>) \<and> isNaN (py \<lparr>pid = 4, px = NaN, py = NaN\<rparr>) \<and>
   scan ([ex_a] @ \<lparr>pid = 4, px = NaN, py = NaN\<rparr> # [ex_b]) = scan ([ex_a] @ [ex_b])"
proof -
  have r: "rejected ex_mid" by (simp add: rejected_def ex_mid_def)
  have s: "scan ([ex_a] @ ex_mid # [ex_b]) = scan ([ex_a] @ [ex_b])"
    by (simp add: scan_def scan_step_def ex_a_def ex_b_def ex_mid_def js_gt_def)
  have f: "fail \<lparr>cache = [], fresh = 3, fails = 0\<rparr> = \<lparr>cache = [], fresh = 3, fails = 1\<rparr>"
    by (simp add: fail_def)
  have r2: "rejected \<lparr>pid = 4, px = NaN, py = NaN\<rparr>" by (simp add: rejected_def)
  from nan_dropped[OF r, of "Suc (Suc 0)" "Node 0 True None None None None None" "[ex_a]" "[ex_b]"
      "(Fin 0, Fin 0, Fin 1, Fin 1)" empty_pool]
    nan_dropped[OF r2, of "Suc (Suc 0)" "Node 0 True None None None None None" "[ex_a]" "[ex_b]"
      "(Fin 0, Fin 0, Fin 1, Fin 1)" empty_pool]
    r s f Quadtree_ex
  show ?thesis by simp
qed

text \<open>
  C3, as amended. For a list, not empty, of particles with finite coordinates, the point
  \<open>(xMin, yMin)\<close> of the tree is the lower left corner of the minimal enclosing rectangle
  \<open>(X1, Y1, X2, Y2)\<close>; when the width \<open>X2 - X1\<close> exceeds the height \<open>Y2 - Y1\<close>, both
  as computed in binary64, \<open>xMax\<close> is \<open>X2\<close> and \<open>yMax\<close> is the binary64 sum of \<open>yMin\<close>
  and that width, and otherwise \<open>yMax\<close> is \<open>Y2\<close> and \<open>xMax\<close> is the binary64 sum of
  \<open>xMin\<close> and the height. The region is a square when these two operations are exact;
  when they round, its width and its height can differ.
\<close>

theorem bounding_square:
  assumes "ps \<noteq> []" and "list_all finite_pt ps" and "enclosing ps = (X1, Y1, X2, Y2)"
    and "Quadtree k ps st = Some (t, st')"
  shows "xMin t = Fin X1 \<and> yMin t = Fin Y1 \<and>
    (if js_gt (js_sub (Fin X2) (Fin X1)) (js_sub (Fin Y2) (Fin Y1))
     then xMax t = Fin X2 \<and> yMax t = js_add (Fin Y1) (js_sub (Fin X2) (Fin X1)) \<and>
          (exact64 (X2 - X1) \<and> exact64 (Y1 + (X2 - X1)) \<longrightarrow>
             fin_val (yMax t) - fin_val (yMin t) = fin_val (xMax t) - fin_val (xMin t))
     else yMax t = Fin Y2 \<and> xMax t = js_add (Fin X1) (js_sub (Fin Y2) (Fin Y1)) \<and>
          (exact64 (Y2 - Y1) \<and> exact64 (X1 + (Y2 - Y1)) \<longrightarrow>
             fin_val (xMax t) - fin_val (xMin t) = fin_val (yMax t) - fin_val (yMin t)))"
proof -
  from Quadtree_SomeD(2)[OF assms(4)] scan_fin[OF assms(1-3)]
  have r: "region t = squarify (Fin X1, Fin Y1, Fin X2, Fin Y2)" by simp
  show ?thesis
  proof (cases "js_gt (js_sub (Fin X2) (Fin X1)) (js_sub (Fin Y2) (Fin Y1))")
    case True
    with r have "region t = (Fin X1, Fin Y1, Fin X2, js_add (Fin Y1) (js_sub (Fin X2) (Fin X1)))"
      by (simp add: squarify_def Let_def)
    then have e: "xMin t = Fin X1" "yMin t = Fin Y1" "xMax t = Fin X2"
      "yMax t = js_add (Fin Y1) (js_sub (Fin X2) (Fin X1))"
      by (simp_all add: region_def)
    have "fin_val (yMax t) - fin_val (yMin t) = fin_val (xMax t) - fin_val (xMin t)"
      if "exact64 (X2 - X1)" "exact64 (Y1 + (X2 - X1))"
      using that by (simp add: e exact64_def)
    with True e show ?thesis by simp
  next
    case False
    with r have "region t = (Fin X1, Fin Y1, js_add (Fin X1) (js_sub (Fin Y2) (Fin Y1)), Fin Y2)"
      by (simp add: squarify_def Let_def)
    then have e: "xMin t = Fin X1" "yMin t = Fin Y1" "yMax t = Fin Y2"
      "xMax t = js_add (Fin X1) (js_sub (Fin Y2) (Fin Y1))"
      by (simp_all add: region_def)
    have "fin_val (xMax t) - fin_val (xMin t) = fin_val (yMax t) - fin_val (yMin t)"
      if "exact64 (Y2 - Y1)" "exact64 (X1 + (Y2 - Y1))"
      using that by (simp add: e exact64_def)
    with False e show ?thesis by simp
  qed
qed

theorem bounding_square_counterexample:
  "[big_a, big_b] \<noteq> [] \<and> list_all finite_pt [big_a, big_b] \<and>
   Quadtree (Suc (Suc (Suc 0))) [big_a, big_b] empty_pool =
     Some (big_tree, \<lparr>cache = [], fresh = 3, fails = 0\<rparr>) \<and>
   js_sub (xMax big_tree) (xMin big_tree) = Fin 3 \<and>
   js_sub (yMax big_tree) (yMin big_tree) = Fin 4 \<and>
   fin_val (xMax big_tree) - fin_val (xMin big_tree) = 3 \<and>
   fin_val (yMax big_tree) - fin_val (yMin big_tree) = 4"
  by (simp add: Quadtree_big)
    (simp add: big_a_def big_b_def big_tree_def finite_pt_def round64_eval)

theorem bounding_square_witness:
  "[ex_a, ex_b] \<noteq> [] \<and> list_all finite_pt [ex_a, ex_b] \<and> enclosing [ex_a, ex_b] = (0, 0, 1, 1) \<and>
   Quadtree (Suc (Suc (Suc 0))) [ex_a, ex_b] empty_pool =
     Some (ex_tree, \<lparr>cache = [], fresh = 3, fails = 0\<rparr>) \<and>
   \<not> js_gt (js_sub (Fin 1) (Fin 0)) (js_sub (Fin 1) (Fin 0)) \<and>
   exact64 (1 - 0) \<and> exact64 (0 + (1 - 0)) \<and>
   xMin ex_tree = Fin 0 \<and> yMin ex_tree = Fin 0 \<and> yMax ex_tree = Fin 1 \<and>
   xMax ex_tree = js_add (Fin 0) (js_sub (Fin 1) (Fin 0)) \<and>
   fin_val (xMax ex_tree) - fin_val (xMin ex_tree) = fin_val (yMax ex_tree) - fin_val (yMin ex_tree)"
proof -
  have n: "[ex_a, ex_b] \<noteq> []" by simp
  have f: "list_all finite_pt [ex_a, ex_b]" by (simp add: finite_pt_def ex_a_def ex_b_def)
  have e: "enclosing [ex_a, ex_b] = (0, 0, 1, 1)" by (simp add: enclosing_def ex_a_def ex_b_def)
  have g: "\<not> js_gt (js_sub (Fin 1) (Fin 0)) (js_sub (Fin 1) (Fin 0))"
    by (simp add: js_gt_def round64_eval)
  have x: "exact64 (1 - 0)" "exact64 (0 + (1 - 0))" by (simp_all add: exact64_def round64_eval)
  have v: "js_add (Fin 0) (js_sub (Fin 1) (Fin 0)) = Fin 1" by (simp add: round64_eval)
  from bounding_square[OF n f e Quadtree_ex] n f e g x v Quadtree_ex show ?thesis
    by (simp add: ex_tree_def)
qed

text \<open>
  C4. When every node of the free list satisfies the invariant, so does the root of the
  tree that the constructor returns, that is every node of the tree: a node that is not a
  leaf has one of its four children. Each call of \<^verbatim>\<open>insert\<close> that returns keeps the
  invariant of the node it is given, and of the free list. The free list satisfies it
  whenever it is proper (\<open>proper_pool_nonleaf_inv\<close>), as it is at the start and after each
  build and each disposal of a built tree.
\<close>

theorem nonleaf_invariant:
  assumes "list_all nonleaf_inv (cache st)"
  shows "(Quadtree k ps st = Some (t, st') \<longrightarrow> nonleaf_inv (root t)) \<and>
         (nonleaf_inv n \<longrightarrow> insert_pt k n p b st = Some (n', st'') \<longrightarrow>
            nonleaf_inv n' \<and> list_all nonleaf_inv (cache st''))"
proof (intro conjI impI)
  assume q: "Quadtree k ps st = Some (t, st')"
  have "nonleaf_inv (fst (node st)) \<and> list_all nonleaf_inv (cache (snd (node st)))"
    using node_inv[of st "fst (node st)" "snd (node st)"] assms by simp
  with insert_all_nonleaf_inv[OF _ _ Quadtree_SomeD(1)[OF q]] show "nonleaf_inv (root t)"
    by blast
next
  assume "nonleaf_inv n" "insert_pt k n p b st = Some (n', st'')"
  from insert_nonleaf_inv[OF this(1) assms this(2)]
  show "nonleaf_inv n'" "list_all nonleaf_inv (cache st'')" by auto
qed

theorem nonleaf_invariant_witness:
  "list_all nonleaf_inv (cache empty_pool) \<and>
   Quadtree (Suc (Suc (Suc 0))) [ex_a, ex_b] empty_pool = Some (ex_tree, \<lparr>cache = [], fresh = 3, fails = 0\<rparr>) \<and>
   nonleaf_inv (root ex_tree) \<and>
   nonleaf_inv (Node 0 True None None None None None) \<and>
   insert_pt (Suc (Suc (Suc 0))) (Node 0 True None None None None None) ex_a (Fin 0, Fin 0, Fin 1, Fin 1) empty_pool =
     Some (Node 0 True (Some ex_a) None None None None, empty_pool) \<and>
   nonleaf_inv (Node 0 True (Some ex_a) None None None None) \<and>
   list_all nonleaf_inv (cache empty_pool)"
proof -
  have c: "list_all nonleaf_inv (cache empty_pool)" by (simp add: empty_pool_def)
  have i: "insert_pt (Suc (Suc (Suc 0))) (Node 0 True None None None None None) ex_a (Fin 0, Fin 0, Fin 1, Fin 1)
      empty_pool = Some (Node 0 True (Some ex_a) None None None None, empty_pool)"
    by (simp add: ex_a_def rejected_def)
  have n: "nonleaf_inv (Node 0 True None None None None None)" by simp
  from nonleaf_invariant[OF c, of "Suc (Suc (Suc 0))" "[ex_a, ex_b]" ex_tree "\<lparr>cache = [], fresh = 3, fails = 0\<rparr>"
      "Node 0 True None None None None None" ex_a "(Fin 0, Fin 0, Fin 1, Fin 1)"
      "Node 0 True (Some ex_a) None None None None" empty_pool]
    Quadtree_ex c i n
  show ?thesis by blast
qed

text \<open>
  C5. A leaf \<open>n\<close> holds \<open>q\<close>, and the new particle \<open>p\<close> passes the test of line 43 and
  is coincident with \<open>q\<close> by the test of line 56 (the sum of the two absolute differences,
  computed in binary64, is below the constant \<^verbatim>\<open>.01\<close>). Then \<^verbatim>\<open>insert\<close> does what
  \<^verbatim>\<open>insertChild\<close> does with \<open>p\<close> alone; when that returns, \<open>q\<close> is still attached to
  the same node, \<open>p\<close> is held under the child of its quadrant, and the other three child
  slots are as they were. And it does return, with three nested calls or more, when the
  slot of \<open>p\<close> is empty, as the slots of a leaf are, and the nodes of the free list are
  cleared: the result is \<open>n\<close>, no longer a leaf and with \<open>q\<close> still attached, and in the
  slot of \<open>p\<close> a new leaf without children that holds \<open>p\<close>.
\<close>

theorem coincident_anchor:
  assumes "leaf n" "pnt n = Some q" "\<not> rejected p" "coincident q p"
  shows "insert_pt (Suc k) n p b st = insertChild k n p b st \<and>
    (insertChild k n p b st = Some (n', st') \<longrightarrow>
       pnt n' = Some q \<and> nid n' = nid n \<and>
       (case slot (quadrant p b) n' of None \<Rightarrow> False
        | Some m \<Rightarrow> holds m p (narrow (quadrant p b) b)) \<and>
       (c < 4 \<longrightarrow> c \<noteq> quadrant p b \<longrightarrow> slot c n' = slot c n)) \<and>
    (slot (quadrant p b) n = None \<longrightarrow> list_all cleared (cache st) \<longrightarrow>
       (\<exists>m h. insert_pt (Suc (Suc (Suc k))) n p b st = Some (m, snd (node st)) \<and>
          m = set_slot (quadrant p b) h (set_leaf False n) \<and>
          h = set_pnt (Some p) (fst (node st)) \<and>
          pnt m = Some q \<and> nid m = nid n \<and> \<not> leaf m \<and> slot (quadrant p b) m = Some h \<and>
          pnt h = Some p \<and> leaf h \<and> no_kids h))"
proof (intro conjI impI)
  show "insert_pt (Suc k) n p b st = insertChild k n p b st"
    using assms by simp
next
  assume a: "insertChild k n p b st = Some (n', st')"
  then show "pnt n' = Some q" "nid n' = nid n"
    using assms(2) by (cases rule: insertChild_cases; simp)+
  from a show "case slot (quadrant p b) n' of None \<Rightarrow> False
        | Some m \<Rightarrow> holds m p (narrow (quadrant p b) b)"
  proof (cases rule: insertChild_cases)
    case (descend j m st1 m')
    with assms(3) show ?thesis by (auto intro: insert_holds_new)
  qed
  assume "c < 4" "c \<noteq> quadrant p b"
  with a show "slot c n' = slot c n"
    using quadrant_lt4[of p b] by (cases rule: insertChild_cases) (simp add: slot_set_slot_other)
next
  assume s: "slot (quadrant p b) n = None" and cl: "list_all cleared (cache st)"
  define h where "h = set_pnt (Some p) (fst (node st))"
  define m where "m = set_slot (quadrant p b) h (set_leaf False n)"
  from insertChild_fresh[OF assms(3) s cl, of k] assms
  have r: "insert_pt (Suc (Suc (Suc k))) n p b st = Some (m, snd (node st))"
    by (simp add: m_def h_def del: insertChild.simps)
  from cleared_facts[OF node_clean(1)[OF cl]]
  have hf: "pnt h = Some p" "leaf h" "no_kids h" by (simp_all add: h_def)
  have mf: "pnt m = Some q" "nid m = nid n" "\<not> leaf m" "slot (quadrant p b) m = Some h"
    using assms(2) by (simp_all add: m_def)
  from r hf mf m_def h_def
  show "\<exists>m h. insert_pt (Suc (Suc (Suc k))) n p b st = Some (m, snd (node st)) \<and>
          m = set_slot (quadrant p b) h (set_leaf False n) \<and>
          h = set_pnt (Some p) (fst (node st)) \<and>
          pnt m = Some q \<and> nid m = nid n \<and> \<not> leaf m \<and> slot (quadrant p b) m = Some h \<and>
          pnt h = Some p \<and> leaf h \<and> no_kids h"
    by blast
qed

theorem coincident_anchor_witness:
  "leaf (Node 0 True (Some p5) None None None None) \<and>
   pnt (Node 0 True (Some p5) None None None None) = Some p5 \<and>
   \<not> rejected p5005 \<and> coincident p5 p5005 \<and>
   insert_pt (Suc (Suc (Suc 0))) (Node 0 True (Some p5) None None None None) p5005
       (Fin 5, Fin 5, d5005, d5005) \<lparr>cache = [], fresh = 1, fails = 0\<rparr> =
     insertChild (Suc (Suc 0)) (Node 0 True (Some p5) None None None None) p5005
       (Fin 5, Fin 5, d5005, d5005) \<lparr>cache = [], fresh = 1, fails = 0\<rparr> \<and>
   insertChild (Suc (Suc 0)) (Node 0 True (Some p5) None None None None) p5005
       (Fin 5, Fin 5, d5005, d5005) \<lparr>cache = [], fresh = 1, fails = 0\<rparr> =
     Some (Node 0 False (Some p5) None None None
             (Some (Node 1 True (Some p5005) None None None None)),
           \<lparr>cache = [], fresh = 2, fails = 0\<rparr>) \<and>
   pnt (Node 0 False (Some p5) None None None
          (Some (Node 1 True (Some p5005) None None None None))) = Some p5 \<and>
   (0::nat) < 4 \<and> 0 \<noteq> quadrant p5005 (Fin 5, Fin 5, d5005, d5005) \<and>
   slot 0 (Node 0 False (Some p5) None None None
          (Some (Node 1 True (Some p5005) None None None None))) =
     slot 0 (Node 0 True (Some p5) None None None None) \<and>
   slot (quadrant p5005 (Fin 5, Fin 5, d5005, d5005))
     (Node 0 True (Some p5) None None None None) = None \<and>
   list_all cleared (cache \<lparr>cache = [], fresh = 1, fails = 0\<rparr>) \<and>
   (\<exists>m h. insert_pt (Suc (Suc (Suc 0))) (Node 0 True (Some p5) None None None None) p5005
          (Fin 5, Fin 5, d5005, d5005) \<lparr>cache = [], fresh = 1, fails = 0\<rparr> =
        Some (m, \<lparr>cache = [], fresh = 2, fails = 0\<rparr>) \<and>
      m = Node 0 False (Some p5) None None None (Some h) \<and>
      h = Node 1 True (Some p5005) None None None None \<and>
      pnt m = Some p5 \<and> \<not> leaf m \<and> pnt h = Some p5005 \<and> leaf h \<and> no_kids h)"
proof -
  have h1: "leaf (Node 0 True (Some p5) None None None None)" by simp
  have h2: "pnt (Node 0 True (Some p5) None None None None) = Some p5" by simp
  have h3: "\<not> rejected p5005" by (simp add: rejected_def p5005_def d5005_def)
  have h4: "coincident p5 p5005"
    by (simp add: coincident_def p5_def p5005_def d5005_def js_eval)
  have h5: "insertChild (Suc (Suc 0)) (Node 0 True (Some p5) None None None None) p5005
       (Fin 5, Fin 5, d5005, d5005) \<lparr>cache = [], fresh = 1, fails = 0\<rparr> =
     Some (Node 0 False (Some p5) None None None
             (Some (Node 1 True (Some p5005) None None None None)),
           \<lparr>cache = [], fresh = 2, fails = 0\<rparr>)"
    by (simp add: p5_def p5005_def d5005_def tree_eval)
  have h6: "quadrant p5005 (Fin 5, Fin 5, d5005, d5005) = 3"
    by (simp add: p5005_def d5005_def tree_eval)
  have h7: "slot (quadrant p5005 (Fin 5, Fin 5, d5005, d5005))
     (Node 0 True (Some p5) None None None None) = None"
    by (simp add: h6 slot_def)
  have h8: "list_all cleared (cache \<lparr>cache = [], fresh = 1, fails = 0\<rparr>)" by simp
  have h9: "node \<lparr>cache = [], fresh = 1, fails = 0\<rparr> =
      (Node 1 True None None None None None, \<lparr>cache = [], fresh = 2, fails = 0\<rparr>)"
    by (simp add: node_def)
  from coincident_anchor[OF h1 h2 h3 h4, of "Suc (Suc 0)" "(Fin 5, Fin 5, d5005, d5005)"
      "\<lparr>cache = [], fresh = 1, fails = 0\<rparr>"
      "Node 0 False (Some p5) None None None (Some (Node 1 True (Some p5005) None None None None))"
      "\<lparr>cache = [], fresh = 2, fails = 0\<rparr>" 0] h1 h2 h3 h4 h5 h6 h7 h8
  show ?thesis by (simp add: h9 no_kids_def)
qed

text \<open>
  C6, as amended. From the particles at \<open>(5, 5)\<close> and \<open>(5.005, 5.005)\<close>, in this order
  and with no node in the free list, the constructor returns, for any depth of calls from
  three on, a tree whose root is no leaf and still holds the first particle, and whose
  only child is the fourth, a leaf that holds the second particle: line 88 clears
  \<^verbatim>\<open>leaf\<close> on every node that gets a child.
\<close>

theorem two_coincident_points:
  "Quadtree (Suc (Suc (Suc k))) [p5, p5005] empty_pool =
     Some (\<lparr>root = Node 0 False (Some p5) None None None
                     (Some (Node 1 True (Some p5005) None None None None)),
            xMin = Fin 5, yMin = Fin 5, xMax = d5005, yMax = d5005\<rparr>,
           \<lparr>cache = [], fresh = 2, fails = 0\<rparr>)"
  by (rule two_points)

theorem two_coincident_points_counterexample:
  "map_option (\<lambda>(t, s). leaf (root t)) (Quadtree (Suc (Suc (Suc 0))) [p5, p5005] empty_pool) =
     Some False"
  by (simp add: two_points)

text \<open>
  C7. After a tree is disposed, as many calls of \<^verbatim>\<open>node()\<close> as the tree has nodes return
  the cleared nodes that \<^verbatim>\<open>dispose\<close> pushed, and leave the state as it was before the
  disposal; their identities are those of the nodes of the tree, each as often; each is a
  leaf with no particle and no child; and no call among them makes a new node: after
  any \<open>j\<close> of them the count of the nodes ever made is unchanged. (The nodes of a tree
  built from a proper free list have different identities, by \<open>Quadtree_proper\<close>.)
\<close>

theorem pool_round_trip:
  "acquire (count_nodes (root t)) (dispose_tree t st) = (dispose (root t) [], st) \<and>
   mset (map nid (dispose (root t) [])) = mset (idents (root t)) \<and>
   length (dispose (root t) []) = count_nodes (root t) \<and>
   list_all cleared (dispose (root t) []) \<and>
   (j \<le> count_nodes (root t) \<longrightarrow>
      fresh (snd (acquire j (dispose_tree t st))) = fresh st \<and>
      fst (acquire j (dispose_tree t st)) = take j (dispose (root t) []))"
proof -
  have d: "dispose_tree t st = st\<lparr>cache := dispose (root t) [] @ cache st\<rparr>"
    using dispose_append[of "root t" "cache st"] by (simp add: dispose_tree_def)
  have a: "j \<le> count_nodes (root t) \<Longrightarrow> acquire j (dispose_tree t st) =
      (take j (dispose (root t) []), st\<lparr>cache := drop j (dispose (root t) []) @ cache st\<rparr>)" for j
    unfolding d by (rule acquire_take) (simp add: dispose_length)
  have k: "acquire (count_nodes (root t)) (dispose_tree t st) = (dispose (root t) [], st)"
    using a[of "count_nodes (root t)"] by (simp add: dispose_length[symmetric])
  have f: "j \<le> count_nodes (root t) \<longrightarrow>
      fresh (snd (acquire j (dispose_tree t st))) = fresh st \<and>
      fst (acquire j (dispose_tree t st)) = take j (dispose (root t) [])"
    using a[of j] by simp
  from k dispose_idents[of "root t"] dispose_length[of "root t"] dispose_cleared[of "root t"] f
  show ?thesis by (intro conjI)
qed

theorem pool_round_trip_witness:
  "(2::nat) \<le> count_nodes (root ex_tree) \<and>
   fresh (snd (acquire 2 (dispose_tree ex_tree empty_pool))) = fresh empty_pool \<and>
   fst (acquire 2 (dispose_tree ex_tree empty_pool)) = take 2 (dispose (root ex_tree) []) \<and>
   dispose (root ex_tree) [] =
     [Node 0 True None None None None None, Node 2 True None None None None None,
      Node 1 True None None None None None]"
proof -
  have c: "(2::nat) \<le> count_nodes (root ex_tree)"
    by (simp add: count_nodes_def ex_tree_def)
  have d: "dispose (root ex_tree) [] =
     [Node 0 True None None None None None, Node 2 True None None None None None,
      Node 1 True None None None None None]"
    by (simp add: ex_tree_def)
  from pool_round_trip[of ex_tree empty_pool 2] c d show ?thesis by simp
qed

text \<open>
  C8. With the split point \<open>sx = (x1 + x2) / 2\<close>, \<open>sy = (y1 + y2) / 2\<close>, the quadrant of
  line 81 is the index \<open>(x \<ge> sx ? 1 : 0) + (y \<ge> sy ? 2 : 0)\<close> of the specification, it
  is at most 3, the child slot of the \<^verbatim>\<open>switch\<close> is slot \<open>index + 1\<close>, the bounds of the
  recursive call are the rectangle of that quadrant, and \<^verbatim>\<open>insertChild\<close> inserts into the
  child of that slot, or into a node from \<^verbatim>\<open>node()\<close> when the slot is empty, and puts
  the result into the slot of the node, which is no leaf any more.
\<close>

theorem quadrant_descent:
  "(let i = spec_index p (js_half (js_add x1 x2)) (js_half (js_add y1 y2));
        b = (x1, y1, x2, y2)
    in quadrant p b = i \<and> i \<le> 3 \<and>
       slot (quadrant p b) n = spec_child (i + 1) n \<and>
       narrow (quadrant p b) b = spec_region (i + 1) b \<and>
       insertChild (Suc k) n p b st =
         (case (case spec_child (i + 1) n of Some m \<Rightarrow> (m, st) | None \<Rightarrow> node st) of
            (m, st1) \<Rightarrow>
              map_option (\<lambda>(m', s). (spec_set_child (i + 1) m' (set_leaf False n), s))
                (insert_pt k m p (spec_region (i + 1) b) st1)))"
proof -
  define i where "i = spec_index p (js_half (js_add x1 x2)) (js_half (js_add y1 y2))"
  define b where "b = (x1, y1, x2, y2)"
  have q: "quadrant p b = i" by (simp add: b_def i_def quadrant_spec)
  have i3: "i \<le> 3" using spec_index_cases[of p "js_half (js_add x1 x2)" "js_half (js_add y1 y2)"]
    by (auto simp: i_def)
  have s: "slot i m = spec_child (i + 1) m" for m using i3 by (rule slot_spec)
  have nr: "narrow i b = spec_region (i + 1) b" using i3 by (rule narrow_spec)
  have ss: "set_slot i m' m = spec_set_child (i + 1) m' m" for m' m using i3 by (rule set_slot_spec)
  have mo: "(case x of None \<Rightarrow> None | Some (m', s) \<Rightarrow> Some (f m', s)) =
      map_option (\<lambda>(m', s). (f m', s)) x" for x :: "(qnode \<times> pool) option" and f :: "qnode \<Rightarrow> qnode"
    by (cases x) auto
  have "insertChild (Suc k) n p b st =
         (case (case slot i (set_leaf False n) of Some m \<Rightarrow> (m, st) | None \<Rightarrow> node st) of
            (m, st1) \<Rightarrow>
              (case insert_pt k m p (narrow i b) st1 of
                 None \<Rightarrow> None
               | Some (m', s) \<Rightarrow> Some (set_slot i m' (set_leaf False n), s)))"
    by (simp only: insertChild.simps Let_def q)
  also have "\<dots> =
         (case (case spec_child (i + 1) n of Some m \<Rightarrow> (m, st) | None \<Rightarrow> node st) of
            (m, st1) \<Rightarrow>
              map_option (\<lambda>(m', s). (spec_set_child (i + 1) m' (set_leaf False n), s))
                (insert_pt k m p (spec_region (i + 1) b) st1))"
    by (simp only: mo slot_set_leaf s nr ss)
  finally have ic: "insertChild (Suc k) n p b st =
         (case (case spec_child (i + 1) n of Some m \<Rightarrow> (m, st) | None \<Rightarrow> node st) of
            (m, st1) \<Rightarrow>
              map_option (\<lambda>(m', s). (spec_set_child (i + 1) m' (set_leaf False n), s))
                (insert_pt k m p (spec_region (i + 1) b) st1))" .
  from q i3 s[of n] nr ic show ?thesis
    unfolding Let_def i_def[symmetric] b_def[symmetric] by (simp only: simp_thms)
qed

text \<open>
  C9, as amended. From the empty list the constructor returns, for any depth of calls, a
  tree whose root is the node that \<^verbatim>\<open>node()\<close> gave, and whose bounds are those of the
  scan and of what lines 22-24 make of them: \<open>xMin\<close> and \<open>yMin\<close> are \<open>+\<infinity>\<close>, \<open>yMax\<close> is
  \<open>-\<infinity>\<close>, and \<open>xMax\<close> is \<open>+\<infinity> + (-\<infinity> - +\<infinity>)\<close>, not a number.
\<close>

theorem empty_bounds:
  "Quadtree k [] st =
     Some (\<lparr>root = fst (node st), xMin = PInf, yMin = PInf, xMax = NaN, yMax = NInf\<rparr>, snd (node st))"
  by (rule Quadtree_Nil)

theorem empty_bounds_counterexample:
  "map_option (\<lambda>(t, s). region t) (Quadtree 0 [] empty_pool) = Some (PInf, PInf, NaN, NInf)"
  by (simp add: Quadtree_def scan_def squarify_def js_sub_def js_gt_def region_def node_def empty_pool_def)

text \<open>
  C10. The root of the tree that the constructor returns is the node that \<^verbatim>\<open>node()\<close>
  gave before any particle was inserted (a node is a value here, never a null reference).
  From the empty list the constructor returns that node as it is, with the state as
  \<^verbatim>\<open>node()\<close> left it; and when the free list holds cleared nodes only, that node is a
  leaf with no particle and no child.
\<close>

theorem root_acquired:
  "(Quadtree k ps st = Some (t, st') \<longrightarrow> nid (root t) = nid (fst (node st))) \<and>
   map_option (\<lambda>(t, s). (root t, s)) (Quadtree k [] st) = Some (node st) \<and>
   (list_all cleared (cache st) \<longrightarrow> cleared (fst (node st)))"
proof (intro conjI impI)
  assume "Quadtree k ps st = Some (t, st')"
  from insert_all_nid[OF Quadtree_SomeD(1)[OF this]]
  show "nid (root t) = nid (fst (node st))" .
next
  show "map_option (\<lambda>(t, s). (root t, s)) (Quadtree k [] st) = Some (node st)"
    by (simp add: Quadtree_Nil)
next
  assume "list_all cleared (cache st)"
  then show "cleared (fst (node st))" by (rule node_cleared)
qed

theorem root_acquired_witness:
  "Quadtree (Suc (Suc (Suc 0))) [ex_a, ex_b] empty_pool =
     Some (ex_tree, \<lparr>cache = [], fresh = 3, fails = 0\<rparr>) \<and>
   nid (root ex_tree) = nid (fst (node empty_pool)) \<and>
   list_all cleared (cache empty_pool) \<and> cleared (fst (node empty_pool))"
proof -
  have c: "list_all cleared (cache empty_pool)" by (simp add: empty_pool_def)
  from root_acquired[of "Suc (Suc (Suc 0))" "[ex_a, ex_b]" empty_pool ex_tree
      "\<lparr>cache = [], fresh = 3, fails = 0\<rparr>"] Quadtree_ex c
  show ?thesis by simp
qed

end
